theory Spec2Isabelle
  imports Complex_Main "HOL-Library.Char_ord" "HOL-Library.List_Lexorder"
begin

section \<open>Python values\<close>

text \<open>
  The values that \<^verbatim>\<open>binary-search.py\<close> handles: the elements of \<^verbatim>\<open>data\<close> and the
  \<^verbatim>\<open>target\<close> are annotated \<^verbatim>\<open>Union[int, float]\<close>, and the validator exists because a
  caller may pass anything. The model covers \<^verbatim>\<open>int\<close> (unbounded), \<^verbatim>\<open>float\<close> (a finite
  value, NaN or an infinity), \<^verbatim>\<open>str\<close> and \<^verbatim>\<open>None\<close>. A finite float is given by its exact
  value; every double is a real number, and Python compares \<^verbatim>\<open>int\<close> with \<^verbatim>\<open>float\<close>
  exactly, so no rounding enters any comparison below.
\<close>

datatype pyfloat = Finite real | NaN | PosInf | NegInf

datatype pyval = PInt int | PFloat pyfloat | PStr string | PNone

text \<open>The argument \<^verbatim>\<open>data\<close>: a list, or some other object.\<close>

datatype pyarg = AList "pyval list" | AValue pyval

text \<open>An f-string before rendering: literal text and formatted values, in order.\<close>

datatype part = Lit string | Fmt pyval

datatype pyerror = ValueError "part list" | TypeError | OverflowError | IndexError

text \<open>
  Dictionaries with \<^verbatim>\<open>str\<close> keys are association lists in insertion order; the values
  stored in a step are plain values, booleans, formatted strings, lists and dictionaries.
\<close>

datatype pyobj =
    Atom pyval
  | Bool bool
  | FStr "part list"
  | PyList "pyobj list"
  | Dict "(string \<times> pyobj) list"

type_synonym step = "(string \<times> pyobj) list"

text \<open>\<^verbatim>\<open>d[k] = v\<close>: replaces the value of an existing key, appends a new key.\<close>

fun dict_set :: "(string \<times> pyobj) list \<Rightarrow> string \<Rightarrow> pyobj \<Rightarrow> (string \<times> pyobj) list" where
  "dict_set [] k v = [(k, v)]"
| "dict_set ((k', v') # d) k v = (if k' = k then (k, v) # d else (k', v') # dict_set d k v)"

subsection \<open>Comparison and indexing\<close>

text \<open>\<^verbatim>\<open>isinstance(v, (int, float))\<close>\<close>

fun isinstance_number :: "pyval \<Rightarrow> bool" where
  "isinstance_number (PInt _) = True"
| "isinstance_number (PFloat _) = True"
| "isinstance_number _ = False"

text \<open>The exact numeric value of an \<^verbatim>\<open>int\<close> or \<^verbatim>\<open>float\<close>.\<close>

fun as_number :: "pyval \<Rightarrow> pyfloat option" where
  "as_number (PInt i) = Some (Finite (of_int i))"
| "as_number (PFloat f) = Some f"
| "as_number _ = None"

fun float_lt :: "pyfloat \<Rightarrow> pyfloat \<Rightarrow> bool" where
  "float_lt NaN _ = False"
| "float_lt _ NaN = False"
| "float_lt (Finite a) (Finite b) = (a < b)"
| "float_lt NegInf NegInf = False"
| "float_lt NegInf _ = True"
| "float_lt _ NegInf = False"
| "float_lt PosInf _ = False"
| "float_lt _ PosInf = True"

text \<open>
  \<^verbatim>\<open>a < b\<close>: numeric between numbers, lexicographic between strings, and a
  \<^verbatim>\<open>TypeError\<close> for every other pair of types.
\<close>

definition py_lt :: "pyval \<Rightarrow> pyval \<Rightarrow> pyerror + bool" where
  "py_lt a b =
     (case (as_number a, as_number b) of
        (Some x, Some y) \<Rightarrow> Inr (float_lt x y)
      | _ \<Rightarrow> (case (a, b) of (PStr s, PStr t) \<Rightarrow> Inr (s < t) | _ \<Rightarrow> Inl TypeError))"

text \<open>\<^verbatim>\<open>a == b\<close> never raises; NaN equals nothing.\<close>

definition py_eq :: "pyval \<Rightarrow> pyval \<Rightarrow> bool" where
  "py_eq a b =
     (case (as_number a, as_number b) of
        (Some x, Some y) \<Rightarrow> x \<noteq> NaN \<and> x = y
      | (None, None) \<Rightarrow> a = b
      | _ \<Rightarrow> False)"

definition len :: "'a list \<Rightarrow> int" where
  "len xs = int (length xs)"

text \<open>\<^verbatim>\<open>data[i]\<close>: a negative index counts from the end; out of range raises.\<close>

definition getitem :: "pyval list \<Rightarrow> int \<Rightarrow> pyerror + pyval" where
  "getitem xs i =
     (let j = (if i < 0 then i + len xs else i)
      in if 0 \<le> j \<and> j < len xs then Inr (xs ! nat j) else Inl IndexError)"

text \<open>\<^verbatim>\<open>list(range(start, end + 1))\<close>\<close>

definition generate_range_indices :: "int \<Rightarrow> int \<Rightarrow> pyobj" where
  "generate_range_indices start end' = PyList (map (\<lambda>i. Atom (PInt i)) [start..end'])"

section \<open>The validator\<close>

text \<open>
  \<^verbatim>\<open>math.isfinite\<close> converts an \<^verbatim>\<open>int\<close> to a double first, and CPython raises
  \<^verbatim>\<open>OverflowError\<close> (int too large to convert to float) when the conversion, rounding to
  nearest, would exceed the largest double: from magnitude \<open>2^1024 - 2^970\<close> on.
\<close>

definition float_overflows :: "int \<Rightarrow> bool" where
  "float_overflows i = (2 ^ 1024 - 2 ^ 970 \<le> \<bar>i\<bar>)"

text \<open>
  \<^verbatim>\<open>_is_finite\<close>. Its \<^verbatim>\<open>except (ImportError, AttributeError)\<close> fallback is for a Python
  without \<^verbatim>\<open>math.isfinite\<close> and catches neither of the errors that \<^verbatim>\<open>math.isfinite\<close>
  itself raises.
\<close>

fun is_finite :: "pyval \<Rightarrow> pyerror + bool" where
  "is_finite (PInt i) = (if float_overflows i then Inl OverflowError else Inr True)"
| "is_finite (PFloat (Finite x)) = Inr True"
| "is_finite (PFloat _) = Inr False"
| "is_finite _ = Inl TypeError"

definition not_sorted_message :: "pyval \<Rightarrow> pyval \<Rightarrow> int \<Rightarrow> int \<Rightarrow> part list" where
  "not_sorted_message a b i j =
     [Lit ''Array must be sorted for binary search. Found '', Fmt a, Lit '' < '', Fmt b,
      Lit '' at indices '', Fmt (PInt i), Lit '' and '', Fmt (PInt j)]"

definition not_finite_message :: "int \<Rightarrow> pyval \<Rightarrow> part list" where
  "not_finite_message i v =
     [Lit ''Array element at index '', Fmt (PInt i), Lit '' must be a finite number, got: '', Fmt v]"

text \<open>The loop \<^verbatim>\<open>for i in range(1, len(data))\<close>, over the indices still to visit.\<close>

fun check_sorted :: "pyval list \<Rightarrow> int list \<Rightarrow> pyerror + unit" where
  "check_sorted data [] = Inr ()"
| "check_sorted data (i # rest) =
     (case getitem data i of Inl e \<Rightarrow> Inl e | Inr a \<Rightarrow>
      (case getitem data (i - 1) of Inl e \<Rightarrow> Inl e | Inr b \<Rightarrow>
       (case py_lt a b of Inl e \<Rightarrow> Inl e | Inr lt \<Rightarrow>
          if lt then Inl (ValueError (not_sorted_message a b i (i - 1)))
          else check_sorted data rest)))"

text \<open>The loop \<^verbatim>\<open>for i, value in enumerate(data)\<close>, with \<open>i\<close> the index of the head.\<close>

fun check_finite :: "int \<Rightarrow> pyval list \<Rightarrow> pyerror + unit" where
  "check_finite i [] = Inr ()"
| "check_finite i (v # rest) =
     (if \<not> isinstance_number v then Inl (ValueError (not_finite_message i v))
      else (case is_finite v of Inl e \<Rightarrow> Inl e | Inr fin \<Rightarrow>
        if \<not> fin then Inl (ValueError (not_finite_message i v))
        else check_finite (i + 1) rest))"

fun validate_input :: "pyarg \<Rightarrow> pyval \<Rightarrow> pyerror + unit" where
  "validate_input (AValue _) target = Inl (ValueError [Lit ''Input data must be a list''])"
| "validate_input (AList data) target =
     (if \<not> isinstance_number target then Inl (ValueError [Lit ''Target must be a finite number''])
      else (case is_finite target of Inl e \<Rightarrow> Inl e | Inr fin \<Rightarrow>
        if \<not> fin then Inl (ValueError [Lit ''Target must be a finite number''])
        else (case check_sorted data [1..len data - 1] of Inl e \<Rightarrow> Inl e | Inr _ \<Rightarrow>
          check_finite 0 data)))"

section \<open>The step recorder\<close>

text \<open>
  The fields \<^verbatim>\<open>self.steps\<close> and \<^verbatim>\<open>self.comparisons\<close> of \<^verbatim>\<open>BinarySearchAlgorithm\<close>,
  passed through the search explicitly. \<^verbatim>\<open>BinarySearchResult\<close> carries the same two
  fields and adds \<^verbatim>\<open>found\<close> and \<^verbatim>\<open>index\<close>.
\<close>

record tracking =
  steps :: "step list"
  comparisons :: int

record BinarySearchResult = tracking +
  found :: bool
  index :: int

definition to_dict :: "BinarySearchResult \<Rightarrow> (string \<times> pyobj) list" where
  "to_dict r =
     [(''found'', Bool (found r)),
      (''index'', Atom (PInt (index r))),
      (''steps'', PyList (map Dict (steps r))),
      (''comparisons'', Atom (PInt (comparisons r)))]"

definition add_step :: "step \<Rightarrow> tracking \<Rightarrow> tracking" where
  "add_step step s =
     s\<lparr>steps := steps s @ [dict_set step ''operationCount'' (Atom (PInt (len (steps s) + 1)))]\<rparr>"

definition get_comparison_result :: "pyval \<Rightarrow> pyval \<Rightarrow> pyerror + string" where
  "get_comparison_result target mid =
     (if py_eq target mid then Inr ''equal''
      else (case py_lt target mid of Inl e \<Rightarrow> Inl e | Inr lt \<Rightarrow>
        if lt then Inr ''less'' else Inr ''greater''))"

definition get_comparison_symbol :: "pyval \<Rightarrow> pyval \<Rightarrow> pyerror + string" where
  "get_comparison_symbol target mid =
     (if py_eq target mid then Inr ''==''
      else (case py_lt target mid of Inl e \<Rightarrow> Inl e | Inr lt \<Rightarrow>
        if lt then Inr ''<'' else Inr ''>''))"

subsection \<open>The steps, as the source builds them\<close>

definition init_step :: "pyval \<Rightarrow> int \<Rightarrow> step" where
  "init_step target n =
     [(''type'', Atom (PStr ''init'')),
      (''indices'', PyList []),
      (''metadata'', Dict
         [(''target'', Atom target),
          (''arrayLength'', Atom (PInt n)),
          (''algorithm'', Atom (PStr ''binary-search'')),
          (''language'', Atom (PStr ''python''))]),
      (''description'', FStr
         [Lit ''Initialize binary search for target '', Fmt target,
          Lit '' in sorted array of '', Fmt (PInt n), Lit '' elements''])]"

definition empty_step :: step where
  "empty_step =
     [(''type'', Atom (PStr ''eliminate'')),
      (''indices'', PyList []),
      (''metadata'', Dict [(''found'', Bool False), (''reason'', Atom (PStr ''empty-array''))]),
      (''description'', Atom (PStr ''Array is empty - target cannot be found''))]"

definition range_step :: "int \<Rightarrow> int \<Rightarrow> int \<Rightarrow> step" where
  "range_step left right mid =
     [(''type'', Atom (PStr ''highlight'')),
      (''indices'', generate_range_indices left right),
      (''metadata'', Dict
         [(''left'', Atom (PInt left)),
          (''right'', Atom (PInt right)),
          (''mid'', Atom (PInt mid)),
          (''searchRange'', Bool True),
          (''rangeSize'', Atom (PInt (right - left + 1)))]),
      (''description'', FStr
         [Lit ''Search range: ['', Fmt (PInt left), Lit '', '', Fmt (PInt right), Lit ''] ('',
          Fmt (PInt (right - left + 1)), Lit '' elements)''])]"

definition pointers_step :: "int \<Rightarrow> int \<Rightarrow> int \<Rightarrow> pyval \<Rightarrow> pyval \<Rightarrow> pyval \<Rightarrow> step" where
  "pointers_step left right mid lv mv rv =
     [(''type'', Atom (PStr ''highlight'')),
      (''indices'', PyList [Atom (PInt left), Atom (PInt mid), Atom (PInt right)]),
      (''metadata'', Dict
         [(''left'', Atom (PInt left)),
          (''right'', Atom (PInt right)),
          (''mid'', Atom (PInt mid)),
          (''pointers'', Dict
             [(''left'', Atom (PInt left)), (''mid'', Atom (PInt mid)),
              (''right'', Atom (PInt right))]),
          (''leftValue'', Atom lv),
          (''midValue'', Atom mv),
          (''rightValue'', Atom rv)]),
      (''description'', FStr
         [Lit ''Pointers: left='', Fmt (PInt left), Lit ''('', Fmt lv, Lit ''), mid='',
          Fmt (PInt mid), Lit ''('', Fmt mv, Lit ''), right='', Fmt (PInt right), Lit ''('',
          Fmt rv, Lit '')''])]"

definition compare_step ::
  "pyval \<Rightarrow> int \<Rightarrow> int \<Rightarrow> int \<Rightarrow> pyval \<Rightarrow> string \<Rightarrow> string \<Rightarrow> int \<Rightarrow> step" where
  "compare_step target left right mid mv res symb count =
     [(''type'', Atom (PStr ''compare'')),
      (''indices'', PyList [Atom (PInt mid)]),
      (''metadata'', Dict
         [(''left'', Atom (PInt left)),
          (''right'', Atom (PInt right)),
          (''mid'', Atom (PInt mid)),
          (''targetValue'', Atom target),
          (''midValue'', Atom mv),
          (''comparison'', Atom (PStr res)),
          (''comparisonCount'', Atom (PInt count))]),
      (''description'', FStr
         [Lit ''Compare: target('', Fmt target, Lit '') '', Fmt (PStr symb), Lit '' mid('',
          Fmt mv, Lit '')''])]"

text \<open>The two pictographs of the descriptions, U+1F389 and U+274C, as UTF-8 bytes.\<close>

definition party_popper :: string where
  "party_popper = [CHR 0xF0, CHR 0x9F, CHR 0x8E, CHR 0x89]"

definition cross_mark :: string where
  "cross_mark = [CHR 0xE2, CHR 0x9D, CHR 0x8C]"

definition found_step :: "pyval \<Rightarrow> int \<Rightarrow> int \<Rightarrow> int \<Rightarrow> int \<Rightarrow> step" where
  "found_step target left right mid count =
     [(''type'', Atom (PStr ''found'')),
      (''indices'', PyList [Atom (PInt mid)]),
      (''metadata'', Dict
         [(''left'', Atom (PInt left)),
          (''right'', Atom (PInt right)),
          (''mid'', Atom (PInt mid)),
          (''found'', Bool True),
          (''targetValue'', Atom target),
          (''foundIndex'', Atom (PInt mid)),
          (''totalComparisons'', Atom (PInt count))]),
      (''description'', FStr
         [Lit (party_popper @ '' Found target ''), Fmt target, Lit '' at index '',
          Fmt (PInt mid), Lit '' after '', Fmt (PInt count), Lit '' comparisons!''])]"

definition eliminate_left_step :: "pyval \<Rightarrow> int \<Rightarrow> int \<Rightarrow> int \<Rightarrow> pyval \<Rightarrow> step" where
  "eliminate_left_step target left right mid mv =
     [(''type'', Atom (PStr ''eliminate'')),
      (''indices'', generate_range_indices left mid),
      (''metadata'', Dict
         [(''left'', Atom (PInt left)),
          (''right'', Atom (PInt right)),
          (''mid'', Atom (PInt mid)),
          (''eliminated'', Atom (PStr ''left'')),
          (''eliminatedRange'', PyList [Atom (PInt left), Atom (PInt mid)]),
          (''reason'', FStr [Fmt mv, Lit '' < '', Fmt target]),
          (''remainingRange'', PyList [Atom (PInt (mid + 1)), Atom (PInt right)]),
          (''remainingSize'', Atom (PInt (right - mid)))]),
      (''description'', FStr
         [Fmt mv, Lit '' < '', Fmt target, Lit '': eliminate left half ['', Fmt (PInt left),
          Lit '', '', Fmt (PInt mid), Lit ''], search ['', Fmt (PInt (mid + 1)), Lit '', '',
          Fmt (PInt right), Lit '']''])]"

definition eliminate_right_step :: "pyval \<Rightarrow> int \<Rightarrow> int \<Rightarrow> int \<Rightarrow> pyval \<Rightarrow> step" where
  "eliminate_right_step target left right mid mv =
     [(''type'', Atom (PStr ''eliminate'')),
      (''indices'', generate_range_indices mid right),
      (''metadata'', Dict
         [(''left'', Atom (PInt left)),
          (''right'', Atom (PInt right)),
          (''mid'', Atom (PInt mid)),
          (''eliminated'', Atom (PStr ''right'')),
          (''eliminatedRange'', PyList [Atom (PInt mid), Atom (PInt right)]),
          (''reason'', FStr [Fmt mv, Lit '' > '', Fmt target]),
          (''remainingRange'', PyList [Atom (PInt left), Atom (PInt (mid - 1))]),
          (''remainingSize'', Atom (PInt (mid - left)))]),
      (''description'', FStr
         [Fmt mv, Lit '' > '', Fmt target, Lit '': eliminate right half ['', Fmt (PInt mid),
          Lit '', '', Fmt (PInt right), Lit ''], search ['', Fmt (PInt left), Lit '', '',
          Fmt (PInt (mid - 1)), Lit '']''])]"

definition exhausted_step :: "pyval \<Rightarrow> int \<Rightarrow> int \<Rightarrow> int \<Rightarrow> step" where
  "exhausted_step target left right count =
     [(''type'', Atom (PStr ''eliminate'')),
      (''indices'', PyList []),
      (''metadata'', Dict
         [(''found'', Bool False),
          (''totalComparisons'', Atom (PInt count)),
          (''searchExhausted'', Bool True),
          (''finalLeft'', Atom (PInt left)),
          (''finalRight'', Atom (PInt right))]),
      (''description'', FStr
         [Lit (cross_mark @ '' Target ''), Fmt target, Lit '' not found after '',
          Fmt (PInt count), Lit '' comparisons (search space exhausted)''])]"

section \<open>The search core\<close>

text \<open>
  The first \<^verbatim>\<open>if track_steps:\<close> block of the loop body: the range step, then the
  pointers step, which reads \<^verbatim>\<open>data[left]\<close>, \<^verbatim>\<open>data[mid]\<close> and \<^verbatim>\<open>data[right]\<close>.
\<close>

definition highlight_block ::
  "pyval list \<Rightarrow> int \<Rightarrow> int \<Rightarrow> int \<Rightarrow> tracking \<Rightarrow> pyerror + tracking" where
  "highlight_block data left right mid s =
     (let s1 = add_step (range_step left right mid) s in
      case getitem data left of Inl e \<Rightarrow> Inl e | Inr lv \<Rightarrow>
      (case getitem data mid of Inl e \<Rightarrow> Inl e | Inr mv \<Rightarrow>
       (case getitem data right of Inl e \<Rightarrow> Inl e | Inr rv \<Rightarrow>
          Inr (add_step (pointers_step left right mid lv mv rv) s1))))"

text \<open>The second block, after the counter has been incremented: the compare step.\<close>

definition compare_block ::
  "pyval list \<Rightarrow> pyval \<Rightarrow> int \<Rightarrow> int \<Rightarrow> int \<Rightarrow> tracking \<Rightarrow> pyerror + tracking" where
  "compare_block data target left right mid s =
     (case getitem data mid of Inl e \<Rightarrow> Inl e | Inr mv \<Rightarrow>
      (case get_comparison_result target mv of Inl e \<Rightarrow> Inl e | Inr res \<Rightarrow>
       (case get_comparison_symbol target mv of Inl e \<Rightarrow> Inl e | Inr symb \<Rightarrow>
          Inr (add_step (compare_step target left right mid mv res symb (comparisons s)) s))))"

text \<open>
  The \<^verbatim>\<open>while left <= right\<close> loop of \<^verbatim>\<open>_binary_search_core\<close>, from the loop state
  \<open>(left, right)\<close> and the recorder state \<open>s\<close>. It returns the pair
  \<^verbatim>\<open>(found, index)\<close> and the recorder state at the end.
\<close>

function core_loop ::
  "pyval list \<Rightarrow> pyval \<Rightarrow> bool \<Rightarrow> int \<Rightarrow> int \<Rightarrow> tracking \<Rightarrow> pyerror + ((bool \<times> int) \<times> tracking)"
where
  "core_loop data target track_steps left right s =
     (if left \<le> right then
        (case (if track_steps then highlight_block data left right ((left + right) div 2) s
               else Inr s) of Inl e \<Rightarrow> Inl e | Inr s1 \<Rightarrow>
         (case (if track_steps
                then compare_block data target left right ((left + right) div 2)
                       (s1\<lparr>comparisons := comparisons s1 + 1\<rparr>)
                else Inr (s1\<lparr>comparisons := comparisons s1 + 1\<rparr>)) of Inl e \<Rightarrow> Inl e | Inr s2 \<Rightarrow>
          (case getitem data ((left + right) div 2) of Inl e \<Rightarrow> Inl e | Inr mv \<Rightarrow>
             if py_eq mv target then
               Inr ((True, (left + right) div 2),
                    if track_steps
                    then add_step (found_step target left right ((left + right) div 2)
                                     (comparisons s2)) s2
                    else s2)
             else (case py_lt mv target of Inl e \<Rightarrow> Inl e | Inr lt \<Rightarrow>
               if lt then
                 core_loop data target track_steps ((left + right) div 2 + 1) right
                   (if track_steps
                    then add_step (eliminate_left_step target left right
                                     ((left + right) div 2) mv) s2
                    else s2)
               else
                 core_loop data target track_steps left ((left + right) div 2 - 1)
                   (if track_steps
                    then add_step (eliminate_right_step target left right
                                     ((left + right) div 2) mv) s2
                    else s2)))))
      else
        Inr ((False, - 1),
             if track_steps then add_step (exhausted_step target left right (comparisons s)) s
             else s))"
  by pat_completeness auto
termination
  by (relation "measure (\<lambda>(data, target, track_steps, left, right, s). nat (right - left + 1))")
     auto

declare core_loop.simps [simp del]

definition binary_search_core ::
  "pyval list \<Rightarrow> pyval \<Rightarrow> bool \<Rightarrow> tracking \<Rightarrow> pyerror + ((bool \<times> int) \<times> tracking)" where
  "binary_search_core data target track_steps s =
     core_loop data target track_steps 0 (len data - 1) s"

section \<open>The entry points\<close>

text \<open>
  \<^verbatim>\<open>execute\<close>. A non-list argument never gets past \<^verbatim>\<open>_validate_input\<close>; the branch for
  it after validation stands for \<^verbatim>\<open>len(data)\<close> on such an object and is not reached.
\<close>

definition execute :: "pyarg \<Rightarrow> pyval \<Rightarrow> bool \<Rightarrow> pyerror + BinarySearchResult" where
  "execute data target track_steps =
     (let s0 = \<lparr>steps = [], comparisons = 0\<rparr> in
      case validate_input data target of Inl e \<Rightarrow> Inl e | Inr _ \<Rightarrow>
      (case data of AValue _ \<Rightarrow> Inl TypeError | AList xs \<Rightarrow>
       (let s1 = (if track_steps then add_step (init_step target (len xs)) s0 else s0) in
        if len xs = 0 then
          (let s2 = (if track_steps then add_step empty_step s1 else s1) in
           Inr \<lparr>steps = steps s2, comparisons = comparisons s2, found = False, index = - 1\<rparr>)
        else
          (case binary_search_core xs target track_steps s1 of Inl e \<Rightarrow> Inl e
           | Inr ((f, i), s2) \<Rightarrow>
               Inr \<lparr>steps = steps s2, comparisons = comparisons s2, found = f, index = i\<rparr>))))"

definition binary_search :: "pyarg \<Rightarrow> pyval \<Rightarrow> pyerror + int" where
  "binary_search data target =
     (case execute data target False of Inl e \<Rightarrow> Inl e | Inr r \<Rightarrow> Inr (index r))"

definition binary_search_with_steps :: "pyarg \<Rightarrow> pyval \<Rightarrow> pyerror + BinarySearchResult" where
  "binary_search_with_steps data target = execute data target True"

section \<open>Notions used in the statements\<close>

text \<open>
  \<open>finite_number\<close> holds of the values that the finiteness check of the validator
  accepts: an \<^verbatim>\<open>int\<close> or \<^verbatim>\<open>float\<close> on which \<^verbatim>\<open>_is_finite\<close> returns \<^verbatim>\<open>True\<close>. That is every
  float other than NaN and the infinities, and every \<^verbatim>\<open>int\<close> that \<^verbatim>\<open>math.isfinite\<close> can
  convert to a double (lemma \<open>finite_number_cases\<close>). It is narrower than the finite
  numbers of the specification: an \<^verbatim>\<open>int\<close> of magnitude \<open>2^1024 - 2^970\<close> or more is
  finite, and on it the check raises instead of returning. The value of such a number is
  a real number. A valid input is what the validator lets pass: a non-decreasing list of
  these numbers with such a target (lemma \<open>validate_input_ok\<close>).
\<close>

definition finite_number :: "pyval \<Rightarrow> bool" where
  "finite_number v = (isinstance_number v \<and> is_finite v = Inr True)"

fun number_value :: "pyval \<Rightarrow> real" where
  "number_value (PInt i) = of_int i"
| "number_value (PFloat (Finite x)) = x"
| "number_value _ = 0"

definition valid_input :: "pyval list \<Rightarrow> pyval \<Rightarrow> bool" where
  "valid_input data target =
     (finite_number target \<and> (\<forall>v \<in> set data. finite_number v) \<and> sorted (map number_value data))"

text \<open>
  The results of \<^verbatim>\<open>_get_comparison_result\<close> and \<^verbatim>\<open>_get_comparison_symbol\<close> where they
  return one, as they do on finite numbers.
\<close>

definition comparison_word :: "pyval \<Rightarrow> pyval \<Rightarrow> string" where
  "comparison_word target mv = (case get_comparison_result target mv of Inr w \<Rightarrow> w | Inl _ \<Rightarrow> [])"

definition comparison_sign :: "pyval \<Rightarrow> pyval \<Rightarrow> string" where
  "comparison_sign target mv = (case get_comparison_symbol target mv of Inr w \<Rightarrow> w | Inl _ \<Rightarrow> [])"

text \<open>
  The recorder states that one iteration of the loop leaves when none of its reads and
  comparisons raises: \<open>iteration_state\<close> after the compare step, and from there
  \<open>after_found\<close>, \<open>after_left\<close> and \<open>after_right\<close> after the step of the branch taken.
  \<open>after_exhausted\<close> is the state after the loop has run out. The lemmas
  \<open>core_loop_found\<close>, \<open>core_loop_left\<close>, \<open>core_loop_right\<close> and \<open>core_loop_exhausted\<close>
  derive them from \<open>core_loop\<close>.
\<close>

definition iteration_state :: "bool \<Rightarrow> pyval list \<Rightarrow> pyval \<Rightarrow> int \<Rightarrow> int \<Rightarrow> tracking \<Rightarrow> tracking" where
  "iteration_state tr data target left right s =
     (let mid = (left + right) div 2;
          mv = data ! nat mid;
          s1 = (if tr
                then add_step (pointers_step left right mid (data ! nat left) mv (data ! nat right))
                       (add_step (range_step left right mid) s)
                else s);
          s2 = s1\<lparr>comparisons := comparisons s1 + 1\<rparr>
      in if tr
         then add_step (compare_step target left right mid mv (comparison_word target mv)
                          (comparison_sign target mv) (comparisons s2)) s2
         else s2)"

definition after_found :: "bool \<Rightarrow> pyval list \<Rightarrow> pyval \<Rightarrow> int \<Rightarrow> int \<Rightarrow> tracking \<Rightarrow> tracking" where
  "after_found tr data target left right s =
     (let s2 = iteration_state tr data target left right s
      in if tr then add_step (found_step target left right ((left + right) div 2) (comparisons s2)) s2
         else s2)"

definition after_left :: "bool \<Rightarrow> pyval list \<Rightarrow> pyval \<Rightarrow> int \<Rightarrow> int \<Rightarrow> tracking \<Rightarrow> tracking" where
  "after_left tr data target left right s =
     (let s2 = iteration_state tr data target left right s
      in if tr then add_step (eliminate_left_step target left right ((left + right) div 2)
                                (data ! nat ((left + right) div 2))) s2
         else s2)"

definition after_right :: "bool \<Rightarrow> pyval list \<Rightarrow> pyval \<Rightarrow> int \<Rightarrow> int \<Rightarrow> tracking \<Rightarrow> tracking" where
  "after_right tr data target left right s =
     (let s2 = iteration_state tr data target left right s
      in if tr then add_step (eliminate_right_step target left right ((left + right) div 2)
                                (data ! nat ((left + right) div 2))) s2
         else s2)"

definition after_exhausted :: "bool \<Rightarrow> pyval \<Rightarrow> int \<Rightarrow> int \<Rightarrow> tracking \<Rightarrow> tracking" where
  "after_exhausted tr target left right s =
     (if tr then add_step (exhausted_step target left right (comparisons s)) s else s)"

text \<open>What a caller learns from a call, its trace apart.\<close>

definition outcome :: "pyerror + BinarySearchResult \<Rightarrow> pyerror + bool \<times> int \<times> int" where
  "outcome res = map_sum id (\<lambda>r. (found r, index r, comparisons r)) res"

text \<open>
  Reading a step: its \<^verbatim>\<open>type\<close>, an entry of its \<^verbatim>\<open>metadata\<close>, and the step as
  \<^verbatim>\<open>_add_step\<close> stores it when \<open>n\<close> steps are already recorded.
\<close>

definition step_type :: "step \<Rightarrow> pyobj option" where
  "step_type e = map_of e ''type''"

definition metadata :: "step \<Rightarrow> string \<Rightarrow> pyobj option" where
  "metadata e k = (case map_of e ''metadata'' of Some (Dict m) \<Rightarrow> map_of m k | _ \<Rightarrow> None)"

definition number_step :: "int \<Rightarrow> step \<Rightarrow> step" where
  "number_step n e = dict_set e ''operationCount'' (Atom (PInt (n + 1)))"

text \<open>Every step carries its 1-based position in the log as \<^verbatim>\<open>operationCount\<close>.\<close>

definition numbered :: "step list \<Rightarrow> bool" where
  "numbered ss =
     (\<forall>i < length ss. map_of (ss ! i) ''operationCount'' = Some (Atom (PInt (int i + 1))))"

text \<open>
  The steps that end a trace: \<^verbatim>\<open>found\<close>, the \<^verbatim>\<open>eliminate\<close> step of an exhausted
  search, and the \<^verbatim>\<open>eliminate\<close> step of an empty array.
\<close>

definition closing_step :: "step \<Rightarrow> bool" where
  "closing_step e =
     (step_type e = Some (Atom (PStr ''found''))
      \<or> step_type e = Some (Atom (PStr ''eliminate''))
          \<and> metadata e ''searchExhausted'' = Some (Bool True)
      \<or> step_type e = Some (Atom (PStr ''eliminate''))
          \<and> metadata e ''reason'' = Some (Atom (PStr ''empty-array'')))"

text \<open>
  The pointers that a step records lie in the sequence of length \<open>n\<close>:
  \<open>0 \<le> left \<le> mid \<le> right \<le> n - 1\<close>, with \<open>mid\<close> the floor of their mean.
\<close>

definition pointer_bounds :: "int \<Rightarrow> step \<Rightarrow> bool" where
  "pointer_bounds n e =
     (\<exists>l m r. metadata e ''left'' = Some (Atom (PInt l))
        \<and> metadata e ''mid'' = Some (Atom (PInt m))
        \<and> metadata e ''right'' = Some (Atom (PInt r))
        \<and> m = (l + r) div 2 \<and> 0 \<le> l \<and> l \<le> m \<and> m \<le> r \<and> r \<le> n - 1)"

text \<open>The \<^verbatim>\<open>compare\<close> steps of a trace, one for each iteration of the loop.\<close>

definition compare_steps :: "step list \<Rightarrow> step list" where
  "compare_steps ss = filter (\<lambda>e. step_type e = Some (Atom (PStr ''compare''))) ss"


text \<open>The keys of a dictionary, in order.\<close>

definition field_names :: "(string \<times> pyobj) list \<Rightarrow> string list" where
  "field_names d = map fst d"

section \<open>Finite numbers, and one iteration of the loop\<close>

lemma finite_number_cases:
  "finite_number v \<longleftrightarrow> (\<exists>i. v = PInt i \<and> \<not> float_overflows i) \<or> (\<exists>x. v = PFloat (Finite x))"
proof (cases v)
  case (PFloat f)
  then show ?thesis by (cases f) (simp_all add: finite_number_def)
qed (simp_all add: finite_number_def)

lemma as_number_finite:
  "finite_number v \<Longrightarrow> as_number v = Some (Finite (number_value v))"
  by (auto simp: finite_number_cases)

lemma py_lt_finite:
  "finite_number a \<Longrightarrow> finite_number b \<Longrightarrow> py_lt a b = Inr (number_value a < number_value b)"
  by (simp add: py_lt_def as_number_finite)

lemma py_eq_finite:
  "finite_number a \<Longrightarrow> finite_number b \<Longrightarrow> py_eq a b \<longleftrightarrow> number_value a = number_value b"
  by (simp add: py_eq_def as_number_finite)

lemma getitem_nth:
  "0 \<le> i \<Longrightarrow> i < len xs \<Longrightarrow> getitem xs i = Inr (xs ! nat i)"
  by (simp add: getitem_def)

lemma get_comparison_result_finite:
  "finite_number t \<Longrightarrow> finite_number m \<Longrightarrow>
     get_comparison_result t m = Inr (comparison_word t m)"
  by (simp add: comparison_word_def get_comparison_result_def py_lt_finite)

lemma get_comparison_symbol_finite:
  "finite_number t \<Longrightarrow> finite_number m \<Longrightarrow>
     get_comparison_symbol t m = Inr (comparison_sign t m)"
  by (simp add: comparison_sign_def get_comparison_symbol_def py_lt_finite)

lemma comparisons_add_step [simp]: "comparisons (add_step e s) = comparisons s"
  by (simp add: add_step_def)

lemma comparisons_iteration_state [simp]:
  "comparisons (iteration_state tr data target left right s) = comparisons s + 1"
  by (simp add: iteration_state_def Let_def)

lemma steps_iteration_state_untraced [simp]:
  "steps (iteration_state False data target left right s) = steps s"
  by (simp add: iteration_state_def Let_def)

lemma nth_finite:
  "\<forall>v \<in> set data. finite_number v \<Longrightarrow> 0 \<le> i \<Longrightarrow> i < len data \<Longrightarrow> finite_number (data ! nat i)"
  by (simp add: len_def)

lemma core_loop_exhausted:
  "right < left \<Longrightarrow>
   core_loop data target tr left right s =
     Inr ((False, - 1),
          if tr then add_step (exhausted_step target left right (comparisons s)) s else s)"
  by (subst core_loop.simps) simp

lemma core_loop_iteration:
  assumes fin: "\<forall>v \<in> set data. finite_number v" "finite_number target"
    and bnd: "0 \<le> left" "left \<le> right" "right < len data"
  shows "core_loop data target tr left right s =
     (let mid = (left + right) div 2;
          mv = data ! nat mid;
          s2 = iteration_state tr data target left right s
      in if number_value mv = number_value target then
           Inr ((True, mid),
                if tr then add_step (found_step target left right mid (comparisons s2)) s2 else s2)
         else if number_value mv < number_value target then
           core_loop data target tr (mid + 1) right
             (if tr then add_step (eliminate_left_step target left right mid mv) s2 else s2)
         else
           core_loop data target tr left (mid - 1)
             (if tr then add_step (eliminate_right_step target left right mid mv) s2 else s2))"
proof -
  define mid where "mid = (left + right) div 2"
  have m: "0 \<le> mid" "mid < len data" "left \<le> mid" "mid \<le> right"
    using bnd by (auto simp: mid_def)
  have gl: "getitem data left = Inr (data ! nat left)"
    and gm: "getitem data mid = Inr (data ! nat mid)"
    and gr: "getitem data right = Inr (data ! nat right)"
    using bnd m by (simp_all add: getitem_nth)
  have fm: "finite_number (data ! nat mid)"
    using fin(1) m by (simp add: nth_finite)
  have hb: "highlight_block data left right mid s =
      Inr (add_step (pointers_step left right mid (data ! nat left) (data ! nat mid) (data ! nat right))
             (add_step (range_step left right mid) s))"
    by (simp add: highlight_block_def gl gm gr)
  have cb: "compare_block data target left right mid t =
      Inr (add_step (compare_step target left right mid (data ! nat mid)
             (comparison_word target (data ! nat mid)) (comparison_sign target (data ! nat mid))
             (comparisons t)) t)" for t
    by (simp add: compare_block_def gm get_comparison_result_finite get_comparison_symbol_finite
        fin(2) fm)
  show ?thesis
    apply (subst core_loop.simps)
    apply (fold mid_def)
    apply (simp only: bnd(2) if_True hb cb gm sum.case py_eq_finite[OF fm fin(2)]
        py_lt_finite[OF fm fin(2)] iteration_state_def Let_def)
    apply (fold mid_def)
    apply (cases tr)
     apply (simp_all)
    done
qed


lemma core_loop_found:
  assumes "\<forall>v \<in> set data. finite_number v" "finite_number target"
    and "0 \<le> left" "left \<le> right" "right < len data"
    and "number_value (data ! nat ((left + right) div 2)) = number_value target"
  shows "core_loop data target tr left right s =
           Inr ((True, (left + right) div 2), after_found tr data target left right s)"
  using assms by (simp add: core_loop_iteration after_found_def Let_def)

lemma core_loop_left:
  assumes "\<forall>v \<in> set data. finite_number v" "finite_number target"
    and "0 \<le> left" "left \<le> right" "right < len data"
    and "number_value (data ! nat ((left + right) div 2)) < number_value target"
  shows "core_loop data target tr left right s =
           core_loop data target tr ((left + right) div 2 + 1) right
             (after_left tr data target left right s)"
  using assms by (simp add: core_loop_iteration after_left_def Let_def)

lemma core_loop_right:
  assumes "\<forall>v \<in> set data. finite_number v" "finite_number target"
    and "0 \<le> left" "left \<le> right" "right < len data"
    and "number_value target < number_value (data ! nat ((left + right) div 2))"
  shows "core_loop data target tr left right s =
           core_loop data target tr left ((left + right) div 2 - 1)
             (after_right tr data target left right s)"
  using assms by (simp add: core_loop_iteration after_right_def Let_def)

lemma core_loop_rule:
  assumes fin: "\<forall>v \<in> set data. finite_number v" "finite_number target"
    and init: "I left right s" "0 \<le> left" "right < len data"
    and found: "\<And>l r s. \<lbrakk>I l r s; 0 \<le> l; l \<le> r; r < len data;
        number_value (data ! nat ((l + r) div 2)) = number_value target\<rbrakk>
        \<Longrightarrow> Q (True, (l + r) div 2) (after_found tr data target l r s)"
    and go_left: "\<And>l r s. \<lbrakk>I l r s; 0 \<le> l; l \<le> r; r < len data;
        number_value (data ! nat ((l + r) div 2)) < number_value target\<rbrakk>
        \<Longrightarrow> I ((l + r) div 2 + 1) r (after_left tr data target l r s)"
    and go_right: "\<And>l r s. \<lbrakk>I l r s; 0 \<le> l; l \<le> r; r < len data;
        number_value target < number_value (data ! nat ((l + r) div 2))\<rbrakk>
        \<Longrightarrow> I l ((l + r) div 2 - 1) (after_right tr data target l r s)"
    and exhausted: "\<And>l r s. \<lbrakk>I l r s; 0 \<le> l; r < len data; r < l\<rbrakk>
        \<Longrightarrow> Q (False, - 1) (after_exhausted tr target l r s)"
  shows "\<exists>res s'. core_loop data target tr left right s = Inr (res, s') \<and> Q res s'"
  using init
proof (induction "nat (right - left + 1)" arbitrary: left right s rule: less_induct)
  case less
  show ?case
  proof (cases "right < left")
    case True
    then show ?thesis
      using exhausted[OF less.prems(1,2,3) True]
      by (simp add: core_loop_exhausted after_exhausted_def)
  next
    case False
    then have le: "left \<le> right" by simp
    let ?mid = "(left + right) div 2"
    have mid: "left \<le> ?mid" "?mid \<le> right" using le by auto
    consider (eq) "number_value (data ! nat ?mid) = number_value target"
      | (lt) "number_value (data ! nat ?mid) < number_value target"
      | (gt) "number_value target < number_value (data ! nat ?mid)"
      by linarith
    then show ?thesis
    proof cases
      case eq
      show ?thesis
        using found[OF less.prems(1,2) le less.prems(3) eq]
        by (simp add: core_loop_found[OF fin less.prems(2) le less.prems(3) eq]
           )
    next
      case lt
      have I': "I (?mid + 1) right (after_left tr data target left right s)"
        by (rule go_left[OF less.prems(1,2) le less.prems(3) lt])
      have "nat (right - (?mid + 1) + 1) < nat (right - left + 1)"
        using mid le by linarith
      from less.hyps[OF this I' _ less.prems(3)] mid less.prems(2)
      show ?thesis
        by (simp add: core_loop_left[OF fin less.prems(2) le less.prems(3) lt]
           )
    next
      case gt
      have I': "I left (?mid - 1) (after_right tr data target left right s)"
        by (rule go_right[OF less.prems(1,2) le less.prems(3) gt])
      have "nat (?mid - 1 - left + 1) < nat (right - left + 1)"
        using mid le by linarith
      from less.hyps[OF this I' less.prems(2)] mid less.prems(3)
      show ?thesis
        by (simp add: core_loop_right[OF fin less.prems(2) le less.prems(3) gt]
           )
    qed
  qed
qed

section \<open>The validator accepts exactly the valid inputs\<close>

lemma check_finite_ok:
  "check_finite i xs = Inr () \<longleftrightarrow> (\<forall>v \<in> set xs. finite_number v)"
  by (induction xs arbitrary: i) (auto simp: finite_number_def split: sum.splits)

lemma check_sorted_ok:
  assumes "\<forall>i \<in> set is. 1 \<le> i \<and> i < len data"
  shows "check_sorted data is = Inr () \<longleftrightarrow>
           (\<forall>i \<in> set is. py_lt (data ! nat i) (data ! nat (i - 1)) = Inr False)"
  using assms by (induction "is") (auto simp: getitem_nth split: sum.splits)

lemma sorted_number_values:
  "sorted (map number_value data) \<longleftrightarrow>
     (\<forall>i \<in> set [1..len data - 1]. \<not> number_value (data ! nat i) < number_value (data ! nat (i - 1)))"
proof -
  have "sorted (map number_value data) \<longleftrightarrow>
      (\<forall>k. Suc k < length data \<longrightarrow> number_value (data ! k) \<le> number_value (data ! Suc k))"
    by (simp add: sorted_iff_nth_Suc)
  also have "\<dots> \<longleftrightarrow> (\<forall>i. 1 \<le> i \<and> i \<le> len data - 1
      \<longrightarrow> number_value (data ! nat (i - 1)) \<le> number_value (data ! nat i))"
  proof (intro iffI allI impI)
    fix i :: int
    assume h: "\<forall>k. Suc k < length data \<longrightarrow> number_value (data ! k) \<le> number_value (data ! Suc k)"
      and i: "1 \<le> i \<and> i \<le> len data - 1"
    then have "Suc (nat (i - 1)) < length data" by (simp add: len_def) linarith
    with h have "number_value (data ! nat (i - 1)) \<le> number_value (data ! Suc (nat (i - 1)))"
      by blast
    moreover have "Suc (nat (i - 1)) = nat i" using i by linarith
    ultimately show "number_value (data ! nat (i - 1)) \<le> number_value (data ! nat i)" by simp
  next
    fix k
    assume h: "\<forall>i. 1 \<le> i \<and> i \<le> len data - 1
      \<longrightarrow> number_value (data ! nat (i - 1)) \<le> number_value (data ! nat i)"
      and k: "Suc k < length data"
    then have "1 \<le> int (Suc k) \<and> int (Suc k) \<le> len data - 1" by (simp add: len_def)
    with h have "number_value (data ! nat (int (Suc k) - 1)) \<le> number_value (data ! nat (int (Suc k)))"
      by blast
    moreover have "nat (int (Suc k) - 1) = k" "nat (int (Suc k)) = Suc k" by simp_all
    ultimately show "number_value (data ! k) \<le> number_value (data ! Suc k)" by (simp only:)
  qed
  finally show ?thesis by (auto simp: not_less)
qed

lemma validate_input_ok:
  "validate_input (AList data) target = Inr () \<longleftrightarrow> valid_input data target"
proof -
  have rng: "\<forall>i \<in> set [1..len data - 1]. 1 \<le> i \<and> i < len data" by simp
  have tgt: "(isinstance_number target \<and> is_finite target = Inr True) = finite_number target"
    by (simp add: finite_number_def)
  have "validate_input (AList data) target = Inr () \<longleftrightarrow>
      finite_number target \<and> check_sorted data [1..len data - 1] = Inr ()
        \<and> check_finite 0 data = Inr ()"
    unfolding tgt[symmetric] by (auto split: sum.splits)
  also have "\<dots> \<longleftrightarrow> finite_number target \<and> (\<forall>v \<in> set data. finite_number v)
       \<and> (\<forall>i \<in> set [1..len data - 1]. py_lt (data ! nat i) (data ! nat (i - 1)) = Inr False)"
    by (auto simp: check_finite_ok check_sorted_ok[OF rng])
  also have "\<dots> \<longleftrightarrow> valid_input data target"
  proof (cases "\<forall>v \<in> set data. finite_number v")
    case True
    have "py_lt (data ! nat i) (data ! nat (i - 1))
        = Inr (number_value (data ! nat i) < number_value (data ! nat (i - 1)))"
      if "i \<in> set [1..len data - 1]" for i
      using that True by (intro py_lt_finite nth_finite) auto
    then show ?thesis
      using True by (simp add: valid_input_def sorted_number_values)
  next
    case False
    then show ?thesis by (auto simp: valid_input_def)
  qed
  finally show ?thesis .
qed

lemma validate_input_not_list: "validate_input (AValue v) target \<noteq> Inr u"
  by simp

lemma execute_valid:
  assumes "valid_input data target"
  shows "execute (AList data) target tr =
     (if data = [] then
        Inr \<lparr>steps = steps (if tr then add_step empty_step
                                (add_step (init_step target 0) \<lparr>steps = [], comparisons = 0\<rparr>)
                            else \<lparr>steps = [], comparisons = 0\<rparr>),
             comparisons = 0, found = False, index = - 1\<rparr>
      else
        (case core_loop data target tr 0 (len data - 1)
                (if tr then add_step (init_step target (len data)) \<lparr>steps = [], comparisons = 0\<rparr>
                 else \<lparr>steps = [], comparisons = 0\<rparr>) of
           Inl e \<Rightarrow> Inl e
         | Inr ((f, i), s2) \<Rightarrow>
             Inr \<lparr>steps = steps s2, comparisons = comparisons s2, found = f, index = i\<rparr>))"
proof -
  have v: "validate_input (AList data) target = Inr ()"
    using assms by (simp only: validate_input_ok)
  show ?thesis
    by (simp add: execute_def v binary_search_core_def Let_def len_def del: validate_input.simps)
qed

section \<open>The search finds the target exactly when it occurs\<close>

lemma sorted_value_mono:
  assumes "sorted (map number_value data)" "0 \<le> i" "i \<le> j" "j < len data"
  shows "number_value (data ! nat i) \<le> number_value (data ! nat j)"
proof -
  have "nat i \<le> nat j" "nat j < length (map number_value data)"
    using assms by (simp_all add: len_def)
  from sorted_nth_mono[OF assms(1) this] show ?thesis
    using assms by (simp add: len_def)
qed

lemma core_loop_correct:
  assumes v: "valid_input data target"
  shows "\<exists>f i s'. core_loop data target tr 0 (len data - 1) s = Inr ((f, i), s') \<and>
      (if f then 0 \<le> i \<and> i < len data \<and> number_value (data ! nat i) = number_value target
       else i = - 1 \<and> (\<forall>j. 0 \<le> j \<and> j < len data
              \<longrightarrow> number_value (data ! nat j) \<noteq> number_value target))"
proof -
  let ?I = "\<lambda>l r (s::tracking). \<forall>j. 0 \<le> j \<and> j < len data
      \<and> number_value (data ! nat j) = number_value target \<longrightarrow> l \<le> j \<and> j \<le> r"
  let ?Q = "\<lambda>res (s'::tracking). (if fst res then 0 \<le> snd res \<and> snd res < len data
         \<and> number_value (data ! nat (snd res)) = number_value target
       else snd res = - 1 \<and> (\<forall>j. 0 \<le> j \<and> j < len data
              \<longrightarrow> number_value (data ! nat j) \<noteq> number_value target))"
  have fin: "\<forall>v \<in> set data. finite_number v" "finite_number target"
    and srt: "sorted (map number_value data)"
    using v by (simp_all add: valid_input_def)
  have "\<exists>res s'. core_loop data target tr 0 (len data - 1) s = Inr (res, s') \<and> ?Q res s'"
  proof (rule core_loop_rule[where I = ?I and Q = ?Q, OF fin])
    show "?I 0 (len data - 1) s" by auto
  next
    fix l r :: int and s :: tracking
    assume "0 \<le> l" "l \<le> r" "r < len data"
    then show "?Q (True, (l + r) div 2) (after_found tr data target l r s)"
      if "number_value (data ! nat ((l + r) div 2)) = number_value target"
      using that by auto
  next
    fix l r :: int and s :: tracking
    assume I: "?I l r s" and b: "0 \<le> l" "l \<le> r" "r < len data"
      and lt: "number_value (data ! nat ((l + r) div 2)) < number_value target"
    show "?I ((l + r) div 2 + 1) r (after_left tr data target l r s)"
    proof (intro allI impI)
      fix j assume j: "0 \<le> j \<and> j < len data \<and> number_value (data ! nat j) = number_value target"
      with I have jr: "l \<le> j" "j \<le> r" by auto
      have "\<not> j \<le> (l + r) div 2"
      proof
        assume "j \<le> (l + r) div 2"
        moreover have "(l + r) div 2 < len data" using b by linarith
        ultimately have "number_value (data ! nat j) \<le> number_value (data ! nat ((l + r) div 2))"
          using j by (intro sorted_value_mono[OF srt]) auto
        with lt j show False by simp
      qed
      with jr show "(l + r) div 2 + 1 \<le> j \<and> j \<le> r" by simp
    qed
  next
    fix l r :: int and s :: tracking
    assume I: "?I l r s" and b: "0 \<le> l" "l \<le> r" "r < len data"
      and gt: "number_value target < number_value (data ! nat ((l + r) div 2))"
    show "?I l ((l + r) div 2 - 1) (after_right tr data target l r s)"
    proof (intro allI impI)
      fix j assume j: "0 \<le> j \<and> j < len data \<and> number_value (data ! nat j) = number_value target"
      with I have jr: "l \<le> j" "j \<le> r" by auto
      have "\<not> (l + r) div 2 \<le> j"
      proof
        assume "(l + r) div 2 \<le> j"
        moreover have "0 \<le> (l + r) div 2" using b by linarith
        ultimately have "number_value (data ! nat ((l + r) div 2)) \<le> number_value (data ! nat j)"
          using j by (intro sorted_value_mono[OF srt]) auto
        with gt j show False by simp
      qed
      with jr show "l \<le> j \<and> j \<le> (l + r) div 2 - 1" by simp
    qed
  next
    fix l r :: int and s :: tracking
    assume "?I l r s" "r < l"
    then show "?Q (False, - 1) (after_exhausted tr target l r s)" by force
  qed simp_all
  then obtain res s' where r: "core_loop data target tr 0 (len data - 1) s = Inr (res, s')"
    "?Q res s'" by blast
  show ?thesis
    by (rule exI[of _ "fst res"], rule exI[of _ "snd res"], rule exI[of _ s']) (use r in simp)
qed

lemma py_eq_occurs:
  assumes "valid_input S T"
  shows "(\<exists>v \<in> set S. py_eq v T) \<longleftrightarrow>
     (\<exists>j. 0 \<le> j \<and> j < len S \<and> number_value (S ! nat j) = number_value T)"
proof
  assume "\<exists>v \<in> set S. py_eq v T"
  then obtain k where k: "k < length S" "py_eq (S ! k) T" by (auto simp: in_set_conv_nth)
  with assms have "number_value (S ! k) = number_value T"
    by (simp add: valid_input_def py_eq_finite)
  with k show "\<exists>j. 0 \<le> j \<and> j < len S \<and> number_value (S ! nat j) = number_value T"
    by (intro exI[of _ "int k"]) (simp add: len_def)
next
  assume "\<exists>j. 0 \<le> j \<and> j < len S \<and> number_value (S ! nat j) = number_value T"
  then obtain j where j: "0 \<le> j" "j < len S" "number_value (S ! nat j) = number_value T" by auto
  then have "S ! nat j \<in> set S" by (simp add: len_def)
  moreover from this j assms have "py_eq (S ! nat j) T"
    by (simp add: valid_input_def py_eq_finite)
  ultimately show "\<exists>v \<in> set S. py_eq v T" by blast
qed

text \<open>
  On every input that the validator lets pass, the search is right: if the target occurs
  in the sequence (some element is \<^verbatim>\<open>==\<close> to it), \<^verbatim>\<open>binary_search\<close> returns an index of
  the sequence whose element is \<^verbatim>\<open>==\<close> to the target, and otherwise it returns \<open>-1\<close>.
\<close>

lemma binary_search_correct:
  assumes "\<forall>v \<in> set S. finite_number v" and "finite_number T"
    and "sorted (map number_value S)"
  shows "if \<exists>v \<in> set S. py_eq v T
         then \<exists>i. binary_search (AList S) T = Inr i \<and> 0 \<le> i \<and> i < len S \<and> py_eq (S ! nat i) T
         else binary_search (AList S) T = Inr (- 1)"
proof -
  have v: "valid_input S T" using assms by (simp add: valid_input_def)
  show ?thesis
  proof (cases "S = []")
    case True
    show ?thesis
      unfolding binary_search_def execute_valid[OF v] using True by simp
  next
    case False
    obtain f i s' where run: "core_loop S T False 0 (len S - 1) \<lparr>steps = [], comparisons = 0\<rparr>
          = Inr ((f, i), s')"
      and res: "if f then 0 \<le> i \<and> i < len S \<and> number_value (S ! nat i) = number_value T
         else i = - 1 \<and> (\<forall>j. 0 \<le> j \<and> j < len S \<longrightarrow> number_value (S ! nat j) \<noteq> number_value T)"
      using core_loop_correct[OF v] by blast
    have bs: "binary_search (AList S) T = Inr i"
      using False by (simp add: binary_search_def execute_valid[OF v] run)
    show ?thesis
    proof (cases f)
      case True
      with res have i: "0 \<le> i" "i < len S" "number_value (S ! nat i) = number_value T" by auto
      then have "py_eq (S ! nat i) T"
        using v by (simp add: valid_input_def py_eq_finite len_def)
      moreover have "\<exists>v \<in> set S. py_eq v T"
        using i by (subst py_eq_occurs[OF v]) blast
      ultimately show ?thesis using bs i by auto
    next
      case False
      with res have "i = - 1" "\<not> (\<exists>v \<in> set S. py_eq v T)"
        by (auto simp: py_eq_occurs[OF v])
      then show ?thesis using bs by simp
    qed
  qed
qed

lemma binary_search_correct_example:
  "finite_number (PInt 1) \<and> finite_number (PFloat (Finite 3)) \<and> finite_number (PInt 5)
   \<and> finite_number (PFloat (Finite 5))
   \<and> sorted (map number_value [PInt 1, PFloat (Finite 3), PInt 5])
   \<and> py_eq (PInt 5) (PFloat (Finite 5))
   \<and> (\<exists>i. binary_search (AList [PInt 1, PFloat (Finite 3), PInt 5]) (PFloat (Finite 5)) = Inr i
         \<and> 0 \<le> i \<and> i < len [PInt 1, PFloat (Finite 3), PInt 5]
         \<and> py_eq ([PInt 1, PFloat (Finite 3), PInt 5] ! nat i) (PFloat (Finite 5)))"
proof -
  have f: "finite_number (PInt 1)" "finite_number (PFloat (Finite 3))" "finite_number (PInt 5)"
    by (simp_all add: finite_number_def float_overflows_def)
  then have h1: "\<forall>v \<in> set [PInt 1, PFloat (Finite 3), PInt 5]. finite_number v"
    by simp
  have h2: "finite_number (PFloat (Finite 5))"
    by (simp add: finite_number_def)
  have h3: "sorted (map number_value [PInt 1, PFloat (Finite 3), PInt 5])"
    by simp
  have e: "py_eq (PInt 5) (PFloat (Finite 5))"
    by (simp add: py_eq_def)
  then have h4: "\<exists>v \<in> set [PInt 1, PFloat (Finite 3), PInt 5]. py_eq v (PFloat (Finite 5))"
    by simp
  from binary_search_correct[OF h1 h2 h3] h4
  have "\<exists>i. binary_search (AList [PInt 1, PFloat (Finite 3), PInt 5]) (PFloat (Finite 5)) = Inr i
         \<and> 0 \<le> i \<and> i < len [PInt 1, PFloat (Finite 3), PInt 5]
         \<and> py_eq ([PInt 1, PFloat (Finite 3), PInt 5] ! nat i) (PFloat (Finite 5))"
    by (simp only: if_True)
  with f h2 h3 e show ?thesis by blast
qed

text \<open>
  Claim C1 states that for every non-decreasing sequence \<open>S\<close> of finite numbers and every
  finite target \<open>T\<close>, \<^verbatim>\<open>binary_search(S, T)\<close> returns an index \<open>i\<close> with \<^verbatim>\<open>S[i] == T\<close> when
  \<open>T\<close> occurs in \<open>S\<close>, and \<open>-1\<close> when it does not. The code does not do so on the
  one-element sequence \<^verbatim>\<open>[2**1024]\<close> with the target \<^verbatim>\<open>2**1024\<close>, which occurs in it at
  index 0: \<^verbatim>\<open>_is_finite\<close> raises \<^verbatim>\<open>OverflowError\<close> on this number, and so does the search.
\<close>

theorem large_int_search_raises:
  "is_finite (PInt (2 ^ 1024)) = Inl OverflowError
   \<and> py_eq (PInt (2 ^ 1024)) (PInt (2 ^ 1024))
   \<and> binary_search (AList [PInt (2 ^ 1024)]) (PInt (2 ^ 1024)) = Inl OverflowError"
  by (simp add: binary_search_def execute_def py_eq_def float_overflows_def)

section \<open>The number of comparisons\<close>

lemma comparisons_after [simp]:
  "comparisons (after_found tr data target l r s) = comparisons s + 1"
  "comparisons (after_left tr data target l r s) = comparisons s + 1"
  "comparisons (after_right tr data target l r s) = comparisons s + 1"
  "comparisons (after_exhausted tr target l r s) = comparisons s"
  by (simp_all add: after_found_def after_left_def after_right_def after_exhausted_def Let_def)

lemma steps_after_untraced [simp]:
  "steps (after_found False data target l r s) = steps s"
  "steps (after_left False data target l r s) = steps s"
  "steps (after_right False data target l r s) = steps s"
  "steps (after_exhausted False target l r s) = steps s"
  by (simp_all add: after_found_def after_left_def after_right_def after_exhausted_def Let_def)

lemma halving:
  fixes p a b n :: int
  assumes "p * a \<le> n" "2 * b \<le> a" "0 \<le> p"
  shows "2 * p * b \<le> n"
proof -
  have "p * (2 * b) \<le> p * a" using assms(2,3) by (rule mult_left_mono)
  with assms(1) show ?thesis by (simp add: mult_ac)
qed

lemma count_le_ceiling_log:
  fixes c n :: int
  assumes "1 \<le> c" "2 ^ (nat c - 1) \<le> n"
  shows "c \<le> \<lceil>log 2 (real_of_int n + 1)\<rceil>"
proof -
  have "(2::real) ^ (nat c - 1) = real_of_int (2 ^ (nat c - 1))" by simp
  also have "\<dots> \<le> real_of_int n"
    using assms(2) by (simp only: of_int_le_iff)
  finally have "(2::real) ^ (nat c - 1) < real_of_int n + 1" by linarith
  then have "real (nat c - 1) < log 2 (real_of_int n + 1)"
    by (rule less_log_of_power) simp
  also have "\<dots> \<le> real_of_int \<lceil>log 2 (real_of_int n + 1)\<rceil>" by (rule le_of_int_ceiling)
  finally have "int (nat c - 1) < \<lceil>log 2 (real_of_int n + 1)\<rceil>" by linarith
  then show ?thesis using assms(1) by linarith
qed

lemma core_loop_count:
  assumes v: "valid_input data target" and c0: "comparisons s = 0"
  shows "\<exists>res s'. core_loop data target tr 0 (len data - 1) s = Inr (res, s') \<and>
      0 \<le> comparisons s' \<and> (0 < len data \<longrightarrow> 1 \<le> comparisons s') \<and>
      (1 \<le> comparisons s' \<longrightarrow> 2 ^ (nat (comparisons s') - 1) \<le> len data)"
proof -
  let ?n = "len data"
  let ?I = "\<lambda>l r (s::tracking). 0 \<le> comparisons s
      \<and> (comparisons s = 0 \<longrightarrow> l = 0 \<and> r = ?n - 1)
      \<and> (1 \<le> comparisons s \<longrightarrow> 2 ^ (nat (comparisons s) - 1) \<le> ?n)
      \<and> (l \<le> r \<longrightarrow> 2 ^ nat (comparisons s) * (r - l + 1) \<le> ?n)"
  let ?Q = "\<lambda>(res::bool \<times> int) (s'::tracking). 0 \<le> comparisons s'
      \<and> (0 < ?n \<longrightarrow> 1 \<le> comparisons s')
      \<and> (1 \<le> comparisons s' \<longrightarrow> 2 ^ (nat (comparisons s') - 1) \<le> ?n)"
  have fin: "\<forall>v \<in> set data. finite_number v" "finite_number target"
    using v by (simp_all add: valid_input_def)
  have pow: "2 ^ nat (c + 1) = 2 * (2::int) ^ nat c" "nat (c + 1) - Suc 0 = nat c"
    if "0 \<le> c" for c
    using that by (simp_all add: nat_add_distrib)
  have one: "(2::int) ^ nat c \<le> n" if "2 ^ nat c * (r - l + 1) \<le> n" "l \<le> r" for c l r n
  proof -
    have "(2::int) ^ nat c * 1 \<le> 2 ^ nat c * (r - l + 1)"
      using that(2) by (intro mult_left_mono) auto
    then have "(2::int) ^ nat c \<le> 2 ^ nat c * (r - l + 1)" by (simp only: mult_1_right)
    then show ?thesis using that(1) by (rule order_trans)
  qed
  show ?thesis
  proof (rule core_loop_rule[where I = ?I and Q = ?Q, OF fin])
    show "?I 0 (?n - 1) s" using c0 by simp
  next
    fix l r :: int and s :: tracking
    assume "?I l r s" "0 \<le> l" "l \<le> r" "r < ?n"
    then show "?Q (True, (l + r) div 2) (after_found tr data target l r s)"
      by (auto simp: pow intro: one)
  next
    fix l r :: int and s :: tracking
    assume I: "?I l r s" and b: "0 \<le> l" "l \<le> r" "r < ?n"
    have "2 * 2 ^ nat (comparisons s) * (r - ((l + r) div 2 + 1) + 1) \<le> ?n"
      using I b by (intro halving[where a = "r - l + 1"]) auto
    with I b show "?I ((l + r) div 2 + 1) r (after_left tr data target l r s)"
      by (auto simp: pow intro: one)
  next
    fix l r :: int and s :: tracking
    assume I: "?I l r s" and b: "0 \<le> l" "l \<le> r" "r < ?n"
    have "2 * 2 ^ nat (comparisons s) * ((l + r) div 2 - 1 - l + 1) \<le> ?n"
      using I b by (intro halving[where a = "r - l + 1"]) auto
    with I b show "?I l ((l + r) div 2 - 1) (after_right tr data target l r s)"
      by (auto simp: pow intro: one)
  next
    fix l r :: int and s :: tracking
    assume "?I l r s" "r < l"
    then show "?Q (False, - 1) (after_exhausted tr target l r s)" by auto
  qed simp_all
qed

text \<open>
  Claim C3. For every valid input sequence of length \<open>n\<close>, the comparison count reported in
  the result is at most \<open>\<lceil>log\<^sub>2 (n + 1)\<rceil>\<close>, and at least 1 whenever \<open>n > 0\<close>, whether the
  target is found or the search is exhausted, with tracing on or off.
\<close>

theorem comparison_count_bounds:
  assumes "validate_input (AList data) target = Inr ()"
  shows "\<exists>r. execute (AList data) target track_steps = Inr r
           \<and> comparisons r \<le> \<lceil>log 2 (real (length data) + 1)\<rceil>
           \<and> (0 < length data \<longrightarrow> 1 \<le> comparisons r)"
proof -
  have v: "valid_input data target" using assms by (simp only: validate_input_ok)
  show ?thesis
  proof (cases "data = []")
    case True
    show ?thesis unfolding execute_valid[OF v] using True by simp
  next
    case False
    let ?s = "if track_steps then add_step (init_step target (len data)) \<lparr>steps = [], comparisons = 0\<rparr>
              else \<lparr>steps = [], comparisons = 0\<rparr>"
    have "comparisons ?s = 0" by simp
    from core_loop_count[OF v this, of track_steps]
    obtain res s' where run: "core_loop data target track_steps 0 (len data - 1) ?s = Inr (res, s')"
      and c: "0 \<le> comparisons s'" "0 < len data \<longrightarrow> 1 \<le> comparisons s'"
        "1 \<le> comparisons s' \<longrightarrow> 2 ^ (nat (comparisons s') - 1) \<le> len data"
      by blast
    have "comparisons s' \<le> \<lceil>log 2 (real_of_int (len data) + 1)\<rceil>"
    proof (cases "1 \<le> comparisons s'")
      case True
      with c(3) show ?thesis by (intro count_le_ceiling_log) auto
    next
      case False
      with c(1) have "comparisons s' = 0" by simp
      moreover have "0 \<le> log 2 (real_of_int (len data) + 1)" by (simp add: len_def)
      ultimately show ?thesis by simp
    qed
    then have "comparisons s' \<le> \<lceil>log 2 (real (length data) + 1)\<rceil>" by (simp add: len_def)
    with c(2) run False show ?thesis
      unfolding execute_valid[OF v] by (cases res) (simp add: len_def)
  qed
qed

theorem comparison_count_bounds_witness:
  "validate_input (AList [PInt 1, PInt 3, PInt 5]) (PInt 4) = Inr ()
   \<and> (\<exists>r. execute (AList [PInt 1, PInt 3, PInt 5]) (PInt 4) True = Inr r
           \<and> comparisons r \<le> \<lceil>log 2 (real (length [PInt 1, PInt 3, PInt 5]) + 1)\<rceil>
           \<and> (0 < length [PInt 1, PInt 3, PInt 5] \<longrightarrow> 1 \<le> comparisons r))"
proof -
  have h: "validate_input (AList [PInt 1, PInt 3, PInt 5]) (PInt 4) = Inr ()"
    by (simp add: len_def getitem_def py_lt_def float_overflows_def upto_rec1)
  show ?thesis
    using comparison_count_bounds[OF h, of True] h by blast
qed

section \<open>Tracing does not change the search\<close>

lemma untraced_state:
  "iteration_state False data target l r s = s\<lparr>comparisons := comparisons s + 1\<rparr>"
  "after_found False data target l r s = s\<lparr>comparisons := comparisons s + 1\<rparr>"
  "after_left False data target l r s = s\<lparr>comparisons := comparisons s + 1\<rparr>"
  "after_right False data target l r s = s\<lparr>comparisons := comparisons s + 1\<rparr>"
  "after_exhausted False target l r s = s"
  by (simp_all add: iteration_state_def after_found_def after_left_def after_right_def
      after_exhausted_def Let_def)

lemma core_loop_untraced:
  assumes v: "valid_input data target" and s: "steps s = []"
  shows "\<exists>res s'. core_loop data target False 0 (len data - 1) s = Inr (res, s') \<and> steps s' = []"
proof -
  have fin: "\<forall>v \<in> set data. finite_number v" "finite_number target"
    using v by (simp_all add: valid_input_def)
  show ?thesis
    by (rule core_loop_rule[where I = "\<lambda>l r s. steps s = []" and Q = "\<lambda>res s'. steps s' = []",
          OF fin]) (simp_all add: s)
qed

lemma core_loop_traced_agrees:
  assumes v: "valid_input data target"
    and u: "core_loop data target False 0 (len data - 1) \<lparr>steps = [], comparisons = comparisons s\<rparr>
              = Inr (res0, s0)"
  shows "\<exists>s'. core_loop data target True 0 (len data - 1) s = Inr (res0, s')
           \<and> comparisons s' = comparisons s0"
proof -
  let ?I = "\<lambda>l r (s::tracking).
      core_loop data target False l r \<lparr>steps = [], comparisons = comparisons s\<rparr> = Inr (res0, s0)"
  let ?Q = "\<lambda>res (s'::tracking). res = res0 \<and> comparisons s' = comparisons s0"
  have fin: "\<forall>v \<in> set data. finite_number v" "finite_number target"
    using v by (simp_all add: valid_input_def)
  have "\<exists>res s'. core_loop data target True 0 (len data - 1) s = Inr (res, s') \<and> ?Q res s'"
  proof (rule core_loop_rule[where I = ?I and Q = ?Q, OF fin])
    show "?I 0 (len data - 1) s" by (rule u)
  next
    fix l r :: int and s :: tracking
    assume I: "?I l r s" and b: "0 \<le> l" "l \<le> r" "r < len data"
      and eq: "number_value (data ! nat ((l + r) div 2)) = number_value target"
    from I show "?Q (True, (l + r) div 2) (after_found True data target l r s)"
      by (auto simp: core_loop_found[OF fin b eq] untraced_state)
  next
    fix l r :: int and s :: tracking
    assume I: "?I l r s" and b: "0 \<le> l" "l \<le> r" "r < len data"
      and lt: "number_value (data ! nat ((l + r) div 2)) < number_value target"
    from I show "?I ((l + r) div 2 + 1) r (after_left True data target l r s)"
      by (simp add: core_loop_left[OF fin b lt] untraced_state)
  next
    fix l r :: int and s :: tracking
    assume I: "?I l r s" and b: "0 \<le> l" "l \<le> r" "r < len data"
      and gt: "number_value target < number_value (data ! nat ((l + r) div 2))"
    from I show "?I l ((l + r) div 2 - 1) (after_right True data target l r s)"
      by (simp add: core_loop_right[OF fin b gt] untraced_state)
  next
    fix l r :: int and s :: tracking
    assume I: "?I l r s" and b: "r < l"
    from I show "?Q (False, - 1) (after_exhausted True target l r s)"
      by (auto simp: core_loop_exhausted[OF b] untraced_state)
  qed simp_all
  then show ?thesis by blast
qed


lemma execute_invalid:
  "validate_input data target = Inl e \<Longrightarrow> execute data target tr = Inl e"
  by (simp add: execute_def)

text \<open>
  Claim C2. For the same sequence and target, the search with tracing disabled yields
  exactly the same found flag, index and comparison count (or the same error) as with
  tracing enabled; with tracing disabled the returned trace is empty.
\<close>

theorem tracing_does_not_change_outcome:
  "outcome (execute data target False) = outcome (execute data target True)
   \<and> (\<forall>r. execute data target False = Inr r \<longrightarrow> steps r = [])"
proof (cases "validate_input data target")
  case (Inl e)
  then show ?thesis by (simp add: execute_invalid)
next
  case (Inr u)
  then obtain xs where d: "data = AList xs" by (cases data) auto
  with Inr have "validate_input (AList xs) target = Inr ()" by simp
  then have v: "valid_input xs target" by (simp only: validate_input_ok)
  show ?thesis
  proof (cases "xs = []")
    case True
    show ?thesis unfolding d execute_valid[OF v] outcome_def using True by simp
  next
    case False
    let ?s0 = "\<lparr>steps = [], comparisons = 0\<rparr>"
    obtain res0 s0 where u: "core_loop xs target False 0 (len xs - 1) ?s0 = Inr (res0, s0)"
      and e: "steps s0 = []"
      using core_loop_untraced[OF v, of ?s0] by auto
    have "core_loop xs target False 0 (len xs - 1)
            \<lparr>steps = [], comparisons = comparisons (add_step (init_step target (len xs)) ?s0)\<rparr>
          = Inr (res0, s0)"
      using u by simp
    from core_loop_traced_agrees[OF v this]
    obtain s' where t: "core_loop xs target True 0 (len xs - 1)
        (add_step (init_step target (len xs)) ?s0) = Inr (res0, s')"
      and c: "comparisons s' = comparisons s0" by blast
    show ?thesis
      unfolding d execute_valid[OF v] outcome_def using False u e t c
      by (cases res0) simp
  qed
qed

theorem tracing_does_not_change_outcome_witness:
  "execute (AList [PInt 1, PInt 3]) (PInt 3) False
     = Inr \<lparr>steps = [], comparisons = 2, found = True, index = 1\<rparr>
   \<and> outcome (execute (AList [PInt 1, PInt 3]) (PInt 3) True) = Inr (True, 1, 2)"
proof -
  have e: "execute (AList [PInt 1, PInt 3]) (PInt 3) False
     = Inr \<lparr>steps = [], comparisons = 2, found = True, index = 1\<rparr>"
    by (simp add: execute_def binary_search_core_def core_loop.simps len_def getitem_def
        py_lt_def py_eq_def float_overflows_def)
  show ?thesis
    using tracing_does_not_change_outcome[of "AList [PInt 1, PInt 3]" "PInt 3"] e
    by (simp add: outcome_def)
qed

section \<open>The recorded trace\<close>

lemma map_of_dict_set:
  "map_of (dict_set d k v) k' = (if k' = k then Some v else map_of d k')"
  by (induction d) auto

lemma number_step_simps [simp]:
  "map_of (number_step n e) ''operationCount'' = Some (Atom (PInt (n + 1)))"
  "step_type (number_step n e) = step_type e"
  "metadata (number_step n e) k = metadata e k"
  by (simp_all add: number_step_def step_type_def metadata_def map_of_dict_set)

lemma steps_add_step [simp]:
  "steps (add_step e s) = steps s @ [number_step (len (steps s)) e]"
  by (simp add: add_step_def number_step_def)

lemma steps_iteration_state_traced:
  "steps (iteration_state True data target l r s) =
     steps s @
     [number_step (len (steps s)) (range_step l r ((l + r) div 2)),
      number_step (len (steps s) + 1)
        (pointers_step l r ((l + r) div 2) (data ! nat l) (data ! nat ((l + r) div 2))
           (data ! nat r)),
      number_step (len (steps s) + 2)
        (compare_step target l r ((l + r) div 2) (data ! nat ((l + r) div 2))
           (comparison_word target (data ! nat ((l + r) div 2)))
           (comparison_sign target (data ! nat ((l + r) div 2))) (comparisons s + 1))]"
  by (simp add: iteration_state_def Let_def len_def add.commute)

lemma steps_after_traced:
  "steps (after_found True data target l r s) =
     steps (iteration_state True data target l r s) @
     [number_step (len (steps s) + 3)
        (found_step target l r ((l + r) div 2) (comparisons s + 1))]"
  "steps (after_left True data target l r s) =
     steps (iteration_state True data target l r s) @
     [number_step (len (steps s) + 3)
        (eliminate_left_step target l r ((l + r) div 2) (data ! nat ((l + r) div 2)))]"
  "steps (after_right True data target l r s) =
     steps (iteration_state True data target l r s) @
     [number_step (len (steps s) + 3)
        (eliminate_right_step target l r ((l + r) div 2) (data ! nat ((l + r) div 2)))]"
  "steps (after_exhausted True target l r s) =
     steps s @ [number_step (len (steps s)) (exhausted_step target l r (comparisons s))]"
  by (simp_all add: after_found_def after_left_def after_right_def after_exhausted_def Let_def
      steps_iteration_state_traced len_def add.commute)

lemma numbered_snoc:
  "numbered ss \<Longrightarrow> numbered (ss @ [number_step (len ss) e])"
  by (auto simp: numbered_def nth_append len_def less_Suc_eq)

lemma numbered_add_step: "numbered (steps s) \<Longrightarrow> numbered (steps (add_step e s))"
  by (simp add: numbered_snoc)

lemma numbered_iteration_state:
  "numbered (steps s) \<Longrightarrow> numbered (steps (iteration_state tr data target l r s))"
  by (simp add: iteration_state_def Let_def numbered_add_step del: steps_add_step)

lemma numbered_after:
  assumes "numbered (steps s)"
  shows "numbered (steps (after_found tr data target l r s))"
    and "numbered (steps (after_left tr data target l r s))"
    and "numbered (steps (after_right tr data target l r s))"
    and "numbered (steps (after_exhausted tr target l r s))"
  using assms
  by (simp_all add: after_found_def after_left_def after_right_def after_exhausted_def Let_def
      numbered_add_step numbered_iteration_state del: steps_add_step)

lemma step_types [simp]:
  "step_type (init_step t n) = Some (Atom (PStr ''init''))"
  "step_type empty_step = Some (Atom (PStr ''eliminate''))"
  "step_type (range_step l r m) = Some (Atom (PStr ''highlight''))"
  "step_type (pointers_step l r m lv mv rv) = Some (Atom (PStr ''highlight''))"
  "step_type (compare_step t l r m mv w sg c) = Some (Atom (PStr ''compare''))"
  "step_type (found_step t l r m c) = Some (Atom (PStr ''found''))"
  "step_type (eliminate_left_step t l r m mv) = Some (Atom (PStr ''eliminate''))"
  "step_type (eliminate_right_step t l r m mv) = Some (Atom (PStr ''eliminate''))"
  "step_type (exhausted_step t l r c) = Some (Atom (PStr ''eliminate''))"
  by (simp_all add: step_type_def init_step_def empty_step_def range_step_def pointers_step_def
      compare_step_def found_step_def eliminate_left_step_def eliminate_right_step_def
      exhausted_step_def)

lemma closing_steps [simp]:
  "closing_step (number_step n (found_step t l r m c))"
  "closing_step (number_step n (exhausted_step t l r c))"
  "closing_step (number_step n empty_step)"
  by (simp_all add: closing_step_def)
     (simp_all add: metadata_def exhausted_step_def empty_step_def)

lemma core_loop_trace:
  assumes v: "valid_input data target" and n: "numbered (steps s)"
  shows "\<exists>res s'. core_loop data target True 0 (len data - 1) s = Inr (res, s')
           \<and> numbered (steps s') \<and> steps s' \<noteq> [] \<and> closing_step (last (steps s'))"
proof -
  have fin: "\<forall>v \<in> set data. finite_number v" "finite_number target"
    using v by (simp_all add: valid_input_def)
  show ?thesis
    by (rule core_loop_rule[where I = "\<lambda>l r s. numbered (steps s)"
          and Q = "\<lambda>res s'. numbered (steps s') \<and> steps s' \<noteq> [] \<and> closing_step (last (steps s'))",
          OF fin])
       (simp_all add: n numbered_after, simp_all add: steps_after_traced)
qed

lemma execute_returns:
  assumes "valid_input data target"
  shows "\<exists>r. execute (AList data) target tr = Inr r"
proof (cases "data = []")
  case True
  show ?thesis unfolding execute_valid[OF assms] using True by simp
next
  case False
  let ?s = "if tr then add_step (init_step target (len data)) \<lparr>steps = [], comparisons = 0\<rparr>
            else \<lparr>steps = [], comparisons = 0\<rparr>"
  have "comparisons ?s = 0" by simp
  from core_loop_count[OF assms this, of tr]
  obtain res s' where "core_loop data target tr 0 (len data - 1) ?s = Inr (res, s')" by blast
  then show ?thesis
    unfolding execute_valid[OF assms] using False by (cases res) simp
qed

text \<open>
  Claim C5. In every trace produced with tracing enabled, the stamps of the steps (the
  entry \<^verbatim>\<open>operationCount\<close> that \<^verbatim>\<open>_add_step\<close> sets) are 1, 2, 3, ..., each equal to the
  position of its step in the log, and the last step is a \<^verbatim>\<open>found\<close> step, the
  \<^verbatim>\<open>eliminate\<close> step with \<^verbatim>\<open>searchExhausted\<close> true, or the \<^verbatim>\<open>eliminate\<close> step of the
  empty array.
\<close>

theorem trace_numbered_and_closed:
  assumes "execute data target True = Inr r"
  shows "(\<forall>i < length (steps r).
            map_of (steps r ! i) ''operationCount'' = Some (Atom (PInt (int i + 1))))
         \<and> steps r \<noteq> [] \<and> closing_step (last (steps r))"
proof -
  have ok: "validate_input data target = Inr ()"
    using assms by (cases "validate_input data target") (simp_all add: execute_invalid)
  then obtain xs where d: "data = AList xs" by (cases data) auto
  with ok have v: "valid_input xs target" by (simp only: validate_input_ok)
  let ?s = "add_step (init_step target (len xs)) \<lparr>steps = [], comparisons = 0\<rparr>"
  have n0: "numbered (steps ?s)"
    by (rule numbered_add_step) (simp add: numbered_def)
  have "numbered (steps r) \<and> steps r \<noteq> [] \<and> closing_step (last (steps r))"
  proof (cases "xs = []")
    case True
    have "numbered (steps (add_step empty_step (add_step (init_step target 0)
            \<lparr>steps = [], comparisons = 0\<rparr>)))"
      by (intro numbered_add_step) (simp add: numbered_def)
    with assms True show ?thesis
      unfolding d execute_valid[OF v] by auto
  next
    case False
    from core_loop_trace[OF v n0] obtain res s' where
      "core_loop xs target True 0 (len xs - 1) ?s = Inr (res, s')"
      "numbered (steps s')" "steps s' \<noteq> []" "closing_step (last (steps s'))" by blast
    with assms False show ?thesis
      unfolding d execute_valid[OF v] by (cases res) auto
  qed
  then show ?thesis by (simp add: numbered_def)
qed

theorem trace_numbered_and_closed_witness:
  "\<exists>r. execute (AList [PInt 5]) (PInt 5) True = Inr r
     \<and> (\<forall>i < length (steps r).
            map_of (steps r ! i) ''operationCount'' = Some (Atom (PInt (int i + 1))))
     \<and> steps r \<noteq> [] \<and> closing_step (last (steps r))"
proof -
  have "valid_input [PInt 5] (PInt 5)"
    by (simp add: valid_input_def finite_number_def float_overflows_def)
  then obtain r where e: "execute (AList [PInt 5]) (PInt 5) True = Inr r"
    using execute_returns by blast
  show ?thesis
    using trace_numbered_and_closed[OF e] e by blast
qed

section \<open>The empty sequence, and the bounds of the pointers\<close>

text \<open>
  For every target that the validator lets pass, searching the empty sequence returns
  \<^verbatim>\<open>found = False\<close> and \<^verbatim>\<open>index = -1\<close> with a comparison count of zero, without entering
  the loop: with tracing enabled the trace is the \<^verbatim>\<open>init\<close> step followed by a single
  \<^verbatim>\<open>eliminate\<close> step whose metadata gives the reason \<^verbatim>\<open>empty-array\<close>, and with tracing
  disabled it is empty.
\<close>

lemma empty_sequence:
  assumes "finite_number T"
  shows "binary_search (AList []) T = Inr (- 1)
     \<and> execute (AList []) T False = Inr \<lparr>steps = [], comparisons = 0, found = False, index = - 1\<rparr>
     \<and> (\<exists>e0 e. execute (AList []) T True
                  = Inr \<lparr>steps = [e0, e], comparisons = 0, found = False, index = - 1\<rparr>
           \<and> step_type e0 = Some (Atom (PStr ''init''))
           \<and> step_type e = Some (Atom (PStr ''eliminate''))
           \<and> metadata e ''reason'' = Some (Atom (PStr ''empty-array'')))"
proof -
  have v: "valid_input [] T" using assms by (simp add: valid_input_def)
  have "metadata empty_step ''reason'' = Some (Atom (PStr ''empty-array''))"
    by (simp add: metadata_def empty_step_def)
  then show ?thesis
    unfolding binary_search_def execute_valid[OF v] by simp
qed

lemma empty_sequence_example:
  "finite_number (PInt 5) \<and> binary_search (AList []) (PInt 5) = Inr (- 1)
     \<and> execute (AList []) (PInt 5) False
         = Inr \<lparr>steps = [], comparisons = 0, found = False, index = - 1\<rparr>"
proof -
  have h: "finite_number (PInt 5)" by (simp add: finite_number_def float_overflows_def)
  show ?thesis using empty_sequence[OF h] h by blast
qed

text \<open>
  Claim C4 states that for every finite target \<open>T\<close>, searching the empty sequence
  returns \<^verbatim>\<open>found = False\<close> and \<^verbatim>\<open>index = -1\<close> with zero comparisons, and with tracing
  enabled a single \<^verbatim>\<open>eliminate\<close> step with the reason \<^verbatim>\<open>empty-array\<close>. The code does not
  do so for the finite target \<^verbatim>\<open>2**1024\<close>: the target check raises \<^verbatim>\<open>OverflowError\<close>, with
  tracing or without, and no result is returned.
\<close>

theorem empty_search_large_target_raises:
  "execute (AList []) (PInt (2 ^ 1024)) tr = Inl OverflowError
   \<and> binary_search (AList []) (PInt (2 ^ 1024)) = Inl OverflowError"
  by (simp add: binary_search_def execute_def float_overflows_def)

lemma metadata_pointers [simp]:
  "metadata (range_step l r m) ''left'' = Some (Atom (PInt l))"
  "metadata (range_step l r m) ''mid'' = Some (Atom (PInt m))"
  "metadata (range_step l r m) ''right'' = Some (Atom (PInt r))"
  "metadata (pointers_step l r m lv mv rv) ''left'' = Some (Atom (PInt l))"
  "metadata (pointers_step l r m lv mv rv) ''mid'' = Some (Atom (PInt m))"
  "metadata (pointers_step l r m lv mv rv) ''right'' = Some (Atom (PInt r))"
  "metadata (compare_step t l r m mv w sg c) ''left'' = Some (Atom (PInt l))"
  "metadata (compare_step t l r m mv w sg c) ''mid'' = Some (Atom (PInt m))"
  "metadata (compare_step t l r m mv w sg c) ''right'' = Some (Atom (PInt r))"
  "metadata (found_step t l r m c) ''left'' = Some (Atom (PInt l))"
  "metadata (found_step t l r m c) ''mid'' = Some (Atom (PInt m))"
  "metadata (found_step t l r m c) ''right'' = Some (Atom (PInt r))"
  "metadata (eliminate_left_step t l r m mv) ''left'' = Some (Atom (PInt l))"
  "metadata (eliminate_left_step t l r m mv) ''mid'' = Some (Atom (PInt m))"
  "metadata (eliminate_left_step t l r m mv) ''right'' = Some (Atom (PInt r))"
  "metadata (eliminate_right_step t l r m mv) ''left'' = Some (Atom (PInt l))"
  "metadata (eliminate_right_step t l r m mv) ''mid'' = Some (Atom (PInt m))"
  "metadata (eliminate_right_step t l r m mv) ''right'' = Some (Atom (PInt r))"
  "metadata (init_step t n) ''mid'' = None"
  "metadata empty_step ''mid'' = None"
  "metadata (exhausted_step t l r c) ''mid'' = None"
  by (simp_all add: metadata_def init_step_def empty_step_def range_step_def pointers_step_def
      compare_step_def found_step_def eliminate_left_step_def eliminate_right_step_def
      exhausted_step_def)

lemma pointer_bounds_steps:
  assumes "0 \<le> l" "l \<le> r" "r < n"
  shows "pointer_bounds n (number_step k (range_step l r ((l + r) div 2)))"
    and "pointer_bounds n (number_step k (pointers_step l r ((l + r) div 2) lv mv rv))"
    and "pointer_bounds n (number_step k (compare_step t l r ((l + r) div 2) mv w sg c))"
    and "pointer_bounds n (number_step k (found_step t l r ((l + r) div 2) c))"
    and "pointer_bounds n (number_step k (eliminate_left_step t l r ((l + r) div 2) mv))"
    and "pointer_bounds n (number_step k (eliminate_right_step t l r ((l + r) div 2) mv))"
proof -
  have "l \<le> (l + r) div 2 \<and> (l + r) div 2 \<le> r" using assms by linarith
  with assms show
    "pointer_bounds n (number_step k (range_step l r ((l + r) div 2)))"
    "pointer_bounds n (number_step k (pointers_step l r ((l + r) div 2) lv mv rv))"
    "pointer_bounds n (number_step k (compare_step t l r ((l + r) div 2) mv w sg c))"
    "pointer_bounds n (number_step k (found_step t l r ((l + r) div 2) c))"
    "pointer_bounds n (number_step k (eliminate_left_step t l r ((l + r) div 2) mv))"
    "pointer_bounds n (number_step k (eliminate_right_step t l r ((l + r) div 2) mv))"
    by (simp_all add: pointer_bounds_def)
qed

lemma compare_steps_simps [simp]:
  "compare_steps [] = []"
  "compare_steps (ss @ ts) = compare_steps ss @ compare_steps ts"
  "compare_steps (e # ss) =
     (if step_type e = Some (Atom (PStr ''compare'')) then e # compare_steps ss
      else compare_steps ss)"
  by (simp_all add: compare_steps_def)

lemma core_loop_pointers:
  assumes v: "valid_input data target"
    and s: "\<forall>e \<in> set (steps s). metadata e ''mid'' = None \<or> pointer_bounds (len data) e"
      "len (compare_steps (steps s)) = comparisons s"
  shows "\<exists>res s'. core_loop data target True 0 (len data - 1) s = Inr (res, s')
     \<and> (\<forall>e \<in> set (steps s'). metadata e ''mid'' = None \<or> pointer_bounds (len data) e)
     \<and> len (compare_steps (steps s')) = comparisons s'"
proof -
  have fin: "\<forall>v \<in> set data. finite_number v" "finite_number target"
    using v by (simp_all add: valid_input_def)
  let ?P = "\<lambda>s::tracking.
     (\<forall>e \<in> set (steps s). metadata e ''mid'' = None \<or> pointer_bounds (len data) e)
     \<and> len (compare_steps (steps s)) = comparisons s"
  show ?thesis
  proof (rule core_loop_rule[where I = "\<lambda>l r. ?P" and Q = "\<lambda>res. ?P", OF fin])
    show "?P s" using s by simp
  qed (simp_all add: steps_after_traced steps_iteration_state_traced pointer_bounds_steps len_def)
qed

text \<open>
  Claim C8. Once validation passes, the search cannot fail, with tracing or without. In
  the trace, which holds one \<^verbatim>\<open>compare\<close> step for each iteration, every step taken inside
  the loop records pointers with \<open>mid = (left + right) div 2\<close> and
  \<open>0 \<le> left \<le> mid \<le> right \<le> length - 1\<close>, so \<^verbatim>\<open>data[left]\<close>, \<^verbatim>\<open>data[mid]\<close> and
  \<^verbatim>\<open>data[right]\<close> are read inside the sequence.
\<close>

theorem search_cannot_fail:
  assumes "validate_input (AList data) target = Inr ()"
  shows "(\<exists>r. execute (AList data) target False = Inr r)
     \<and> (\<exists>r. execute (AList data) target True = Inr r
           \<and> len (compare_steps (steps r)) = comparisons r
           \<and> (\<forall>e \<in> set (steps r). metadata e ''mid'' = None \<or> pointer_bounds (len data) e))"
proof -
  have v: "valid_input data target" using assms by (simp only: validate_input_ok)
  let ?s = "add_step (init_step target (len data)) \<lparr>steps = [], comparisons = 0\<rparr>"
  have traced: "\<exists>r. execute (AList data) target True = Inr r
           \<and> len (compare_steps (steps r)) = comparisons r
           \<and> (\<forall>e \<in> set (steps r). metadata e ''mid'' = None \<or> pointer_bounds (len data) e)"
  proof (cases "data = []")
    case True
    show ?thesis unfolding execute_valid[OF v] using True by (simp add: len_def)
  next
    case False
    have "\<forall>e \<in> set (steps ?s). metadata e ''mid'' = None \<or> pointer_bounds (len data) e"
      "len (compare_steps (steps ?s)) = comparisons ?s"
      by (simp_all add: len_def)
    from core_loop_pointers[OF v this] obtain res s' where
      "core_loop data target True 0 (len data - 1) ?s = Inr (res, s')"
      "\<forall>e \<in> set (steps s'). metadata e ''mid'' = None \<or> pointer_bounds (len data) e"
      "len (compare_steps (steps s')) = comparisons s'" by blast
    then show ?thesis
      unfolding execute_valid[OF v] using False by (cases res) simp
  qed
  with execute_returns[OF v, of False] show ?thesis by blast
qed

theorem search_cannot_fail_witness:
  "validate_input (AList [PInt 1, PInt 3, PInt 5]) (PInt 4) = Inr ()
   \<and> (\<exists>r. execute (AList [PInt 1, PInt 3, PInt 5]) (PInt 4) True = Inr r
           \<and> len (compare_steps (steps r)) = comparisons r
           \<and> (\<forall>e \<in> set (steps r). metadata e ''mid'' = None
                  \<or> pointer_bounds (len [PInt 1, PInt 3, PInt 5]) e))"
proof -
  have h: "validate_input (AList [PInt 1, PInt 3, PInt 5]) (PInt 4) = Inr ()"
    by (simp add: len_def getitem_def py_lt_def float_overflows_def upto_rec1)
  show ?thesis
    using search_cannot_fail[OF h] h by blast
qed

section \<open>Which occurrence is returned\<close>





section \<open>What the validator raises\<close>

lemma check_finite_first_bad:
  assumes "i < length xs" "\<forall>j < i. finite_number (xs ! j)"
    and "\<not> isinstance_number (xs ! i) \<or> is_finite (xs ! i) = Inr False"
  shows "check_finite k xs = Inl (ValueError (not_finite_message (k + int i) (xs ! i)))"
  using assms
proof (induction xs arbitrary: i k)
  case Nil
  then show ?case by simp
next
  case (Cons x xs)
  show ?case
  proof (cases i)
    case 0
    with Cons.prems(3) show ?thesis by auto
  next
    case (Suc i')
    with Cons.prems have x: "finite_number x" and i': "i' < length xs"
      and before: "\<forall>j < i'. finite_number (xs ! j)"
      and bad: "\<not> isinstance_number (xs ! i') \<or> is_finite (xs ! i') = Inr False"
      by auto
    from Cons.IH[OF i' before bad, of "k + 1"] x Suc show ?thesis
      by (simp add: finite_number_def add.assoc)
  qed
qed

lemma validate_input_first_bad:
  assumes t: "finite_number target"
    and ordered: "\<forall>k. 0 < k \<and> k < length xs \<longrightarrow> py_lt (xs ! k) (xs ! (k - 1)) = Inr False"
    and i: "i < length xs" "\<forall>j < i. finite_number (xs ! j)"
      "\<not> isinstance_number (xs ! i) \<or> is_finite (xs ! i) = Inr False"
  shows "validate_input (AList xs) target
           = Inl (ValueError (not_finite_message (int i) (xs ! i)))"
proof -
  have rng: "\<forall>i \<in> set [1..len xs - 1]. 1 \<le> i \<and> i < len xs" by simp
  have "py_lt (xs ! nat j) (xs ! nat (j - 1)) = Inr False" if "j \<in> set [1..len xs - 1]" for j
  proof -
    from that have "0 < nat j \<and> nat j < length xs" "nat (j - 1) = nat j - 1"
      by (auto simp: len_def)
    with ordered show ?thesis by simp
  qed
  then have s: "check_sorted xs [1..len xs - 1] = Inr ()"
    by (simp add: check_sorted_ok[OF rng])
  from check_finite_first_bad[OF i, of 0]
  have f: "check_finite 0 xs = Inl (ValueError (not_finite_message (int i) (xs ! i)))" by simp
  from t show ?thesis by (simp add: finite_number_def s f)
qed

lemma execute_failure:
  "execute data target tr = Inl e \<longleftrightarrow> validate_input data target = Inl e"
proof (cases "validate_input data target")
  case (Inl e')
  then show ?thesis by (simp add: execute_invalid)
next
  case (Inr u)
  then obtain xs where d: "data = AList xs" by (cases data) auto
  with Inr have "validate_input (AList xs) target = Inr ()" by simp
  then have v: "valid_input xs target" by (simp only: validate_input_ok)
  from execute_returns[OF v, of tr] Inr d show ?thesis by auto
qed

lemma is_finite_number:
  assumes "isinstance_number v" "is_finite v \<noteq> Inl OverflowError"
  shows "\<exists>b. is_finite v = Inr b"
proof (cases v)
  case (PInt i)
  with assms(2) show ?thesis by (cases "float_overflows i") auto
next
  case (PFloat f)
  then show ?thesis by (cases f) auto
qed (use assms(1) in simp_all)

lemma py_lt_numbers:
  assumes "isinstance_number a" "isinstance_number b"
  shows "\<exists>c. py_lt a b = Inr c"
proof -
  from assms obtain x y where "as_number a = Some x" "as_number b = Some y"
    by (cases a; cases b) simp_all
  then show ?thesis by (simp add: py_lt_def)
qed

lemma check_sorted_numbers:
  assumes "\<forall>v \<in> set data. isinstance_number v" "\<forall>i \<in> set is. 1 \<le> i \<and> i < len data"
  shows "check_sorted data is = Inr () \<or> (\<exists>m. check_sorted data is = Inl (ValueError m))"
  using assms(2)
proof (induction "is")
  case Nil
  then show ?case by simp
next
  case (Cons i rest)
  then have i: "0 \<le> i" "i < len data" "0 \<le> i - 1" "i - 1 < len data" by auto
  then have "isinstance_number (data ! nat i)" "isinstance_number (data ! nat (i - 1))"
    using assms(1) by (simp_all add: len_def)
  from py_lt_numbers[OF this] obtain c
    where "py_lt (data ! nat i) (data ! nat (i - 1)) = Inr c" by blast
  with Cons i show ?case by (simp add: getitem_nth)
qed

lemma check_finite_numbers:
  assumes "\<forall>v \<in> set xs. isinstance_number v \<and> is_finite v \<noteq> Inl OverflowError"
  shows "check_finite k xs = Inr () \<or> (\<exists>m. check_finite k xs = Inl (ValueError m))"
  using assms
proof (induction xs arbitrary: k)
  case Nil
  then show ?case by simp
next
  case (Cons x xs)
  then obtain b where "is_finite x = Inr b" using is_finite_number[of x] by auto
  with Cons show ?case by simp
qed

lemma validate_input_numbers:
  assumes "\<forall>v \<in> set xs. isinstance_number v \<and> is_finite v \<noteq> Inl OverflowError"
    and "is_finite target \<noteq> Inl OverflowError"
    and "validate_input (AList xs) target = Inl e"
  shows "\<exists>m. e = ValueError m"
proof (cases "isinstance_number target")
  case False
  with assms(3) show ?thesis by auto
next
  case True
  from is_finite_number[OF True assms(2)] obtain b where b: "is_finite target = Inr b" by blast
  have rng: "\<forall>i \<in> set [1..len xs - 1]. 1 \<le> i \<and> i < len xs" by simp
  from assms(1) have num: "\<forall>v \<in> set xs. isinstance_number v" by blast
  from check_sorted_numbers[OF num rng] check_finite_numbers[OF assms(1), of 0] assms(3) True b
  show ?thesis by (auto split: if_splits)
qed

text \<open>
  Claim C6, as the specification states it, fails: for \<^verbatim>\<open>[3, 1, 2]\<close> the message of the
  sortedness error formats the values 1 and 3 and the indices 1 and 0 of the pair; the
  index 2 does not occur in it.
\<close>

theorem sortedness_message_counterexample:
  "validate_input (AList [PInt 3, PInt 1, PInt 2]) (PInt 2)
     = Inl (ValueError (not_sorted_message (PInt 1) (PInt 3) 1 0))
   \<and> Fmt (PInt 2) \<notin> set (not_sorted_message (PInt 1) (PInt 3) 1 0)"
  by (simp add: len_def getitem_def py_lt_def float_overflows_def upto_rec1 not_sorted_message_def)

text \<open>
  Claim C6, amended. Validating \<^verbatim>\<open>[3, 1, 2]\<close> with target 2 raises the sortedness error
  whose message cites the values 1 and 3 and the indices 1 and 0, the positions of these
  two values. Validating \<^verbatim>\<open>[1, 2, NaN]\<close> with target 2, or with any other \<^verbatim>\<open>int\<close> or
  \<^verbatim>\<open>float\<close> target on which the finiteness check of the validator returns \<^verbatim>\<open>True\<close>,
  raises the finiteness error whose message cites index 2 and the value NaN.
  \<^verbatim>\<open>execute\<close> raises the same errors.
\<close>

theorem validation_messages:
  "validate_input (AList [PInt 3, PInt 1, PInt 2]) (PInt 2)
     = Inl (ValueError
         [Lit ''Array must be sorted for binary search. Found '', Fmt (PInt 1), Lit '' < '',
          Fmt (PInt 3), Lit '' at indices '', Fmt (PInt 1), Lit '' and '', Fmt (PInt 0)])
   \<and> execute (AList [PInt 3, PInt 1, PInt 2]) (PInt 2) tr
     = Inl (ValueError
         [Lit ''Array must be sorted for binary search. Found '', Fmt (PInt 1), Lit '' < '',
          Fmt (PInt 3), Lit '' at indices '', Fmt (PInt 1), Lit '' and '', Fmt (PInt 0)])
   \<and> validate_input (AList [PInt 1, PInt 2, PFloat NaN]) (PInt 2)
     = Inl (ValueError
         [Lit ''Array element at index '', Fmt (PInt 2),
          Lit '' must be a finite number, got: '', Fmt (PFloat NaN)])
   \<and> execute (AList [PInt 1, PInt 2, PFloat NaN]) (PInt 2) tr
     = Inl (ValueError
         [Lit ''Array element at index '', Fmt (PInt 2),
          Lit '' must be a finite number, got: '', Fmt (PFloat NaN)])
   \<and> (isinstance_number T \<and> is_finite T = Inr True \<longrightarrow>
        validate_input (AList [PInt 1, PInt 2, PFloat NaN]) T
          = Inl (ValueError
              [Lit ''Array element at index '', Fmt (PInt 2),
               Lit '' must be a finite number, got: '', Fmt (PFloat NaN)])
        \<and> execute (AList [PInt 1, PInt 2, PFloat NaN]) T tr
          = Inl (ValueError
              [Lit ''Array element at index '', Fmt (PInt 2),
               Lit '' must be a finite number, got: '', Fmt (PFloat NaN)]))"
proof -
  have a: "validate_input (AList [PInt 3, PInt 1, PInt 2]) (PInt 2)
     = Inl (ValueError
         [Lit ''Array must be sorted for binary search. Found '', Fmt (PInt 1), Lit '' < '',
          Fmt (PInt 3), Lit '' at indices '', Fmt (PInt 1), Lit '' and '', Fmt (PInt 0)])"
    by (simp add: len_def getitem_def py_lt_def float_overflows_def upto_rec1
        not_sorted_message_def)
  have b: "validate_input (AList [PInt 1, PInt 2, PFloat NaN]) U
     = Inl (ValueError
         [Lit ''Array element at index '', Fmt (PInt 2),
          Lit '' must be a finite number, got: '', Fmt (PFloat NaN)])"
    if "isinstance_number U \<and> is_finite U = Inr True" for U
    using that
    by (simp add: len_def getitem_def py_lt_def float_overflows_def upto_rec1
        not_finite_message_def)
  have c: "isinstance_number (PInt 2) \<and> is_finite (PInt 2) = Inr True"
    by (simp add: float_overflows_def)
  from a b[OF c] b[of T] show ?thesis
    by (simp add: execute_invalid del: validate_input.simps is_finite.simps
        isinstance_number.simps)
qed

theorem validation_messages_witness:
  "isinstance_number (PFloat (Finite 7)) \<and> is_finite (PFloat (Finite 7)) = Inr True
   \<and> validate_input (AList [PInt 1, PInt 2, PFloat NaN]) (PFloat (Finite 7))
       = Inl (ValueError
           [Lit ''Array element at index '', Fmt (PInt 2),
            Lit '' must be a finite number, got: '', Fmt (PFloat NaN)])
   \<and> execute (AList [PInt 1, PInt 2, PFloat NaN]) (PFloat (Finite 7)) True
       = Inl (ValueError
           [Lit ''Array element at index '', Fmt (PInt 2),
            Lit '' must be a finite number, got: '', Fmt (PFloat NaN)])"
proof -
  have h: "isinstance_number (PFloat (Finite 7)) \<and> is_finite (PFloat (Finite 7)) = Inr True"
    by simp
  show ?thesis using validation_messages[of True "PFloat (Finite 7)"] h by blast
qed

text \<open>
  Claim C7 states that the only failure of the routine is the validation error: a list
  with an element that is not numeric or not finite raises it, with the index and the
  value of that element in its message, and no other kind of exception escapes. The code
  does not do so on \<^verbatim>\<open>[1, 'a']\<close> with target 1: the sortedness loop compares \<^verbatim>\<open>'a'\<close> with
  \<open>1\<close> before the element check is reached, and the \<^verbatim>\<open>TypeError\<close> of that comparison
  escapes, with tracing or without. On \<^verbatim>\<open>[2**1024]\<close> the element check itself lets an
  \<^verbatim>\<open>OverflowError\<close> escape.
\<close>

theorem type_error_escapes_validation:
  "\<not> isinstance_number (PStr ''a'')
   \<and> validate_input (AList [PInt 1, PStr ''a'']) (PInt 1) = Inl TypeError
   \<and> execute (AList [PInt 1, PStr ''a'']) (PInt 1) tr = Inl TypeError
   \<and> binary_search (AList [PInt 1, PStr ''a'']) (PInt 1) = Inl TypeError
   \<and> execute (AList [PInt (2 ^ 1024)]) (PInt 1) tr = Inl OverflowError"
proof -
  have a: "validate_input (AList [PInt 1, PStr ''a'']) (PInt 1) = Inl TypeError"
    by (simp add: len_def getitem_def py_lt_def float_overflows_def upto_rec1)
  have b: "validate_input (AList [PInt (2 ^ 1024)]) (PInt 1) = Inl OverflowError"
    by (simp add: len_def getitem_def py_lt_def float_overflows_def upto_rec1)
  from a b show ?thesis
    by (simp add: binary_search_def execute_invalid del: validate_input.simps)
qed

text \<open>
  The order of the two checks also decides which validation error a list gets that is
  both out of order and not finite: \<^verbatim>\<open>[3, 1, NaN]\<close> raises the sortedness error for the
  pair at indices 1 and 0.
\<close>

lemma order_is_checked_before_elements:
  "execute (AList [PInt 3, PInt 1, PFloat NaN]) (PInt 2) tr
     = Inl (ValueError
         [Lit ''Array must be sorted for binary search. Found '', Fmt (PInt 1), Lit '' < '',
          Fmt (PInt 3), Lit '' at indices '', Fmt (PInt 1), Lit '' and '', Fmt (PInt 0)])"
proof -
  have "validate_input (AList [PInt 3, PInt 1, PFloat NaN]) (PInt 2)
     = Inl (ValueError
         [Lit ''Array must be sorted for binary search. Found '', Fmt (PInt 1), Lit '' < '',
          Fmt (PInt 3), Lit '' at indices '', Fmt (PInt 1), Lit '' and '', Fmt (PInt 0)])"
    by (simp add: len_def getitem_def py_lt_def float_overflows_def upto_rec1
        not_sorted_message_def)
  then show ?thesis by (rule execute_invalid)
qed

section \<open>The serialized field names\<close>

lemma field_names_steps [simp]:
  "field_names (number_step k (init_step t n)) =
     [''type'', ''indices'', ''metadata'', ''description'', ''operationCount'']"
  "field_names (number_step k empty_step) =
     [''type'', ''indices'', ''metadata'', ''description'', ''operationCount'']"
  "field_names (number_step k (range_step l r m)) =
     [''type'', ''indices'', ''metadata'', ''description'', ''operationCount'']"
  "field_names (number_step k (pointers_step l r m lv mv rv)) =
     [''type'', ''indices'', ''metadata'', ''description'', ''operationCount'']"
  "field_names (number_step k (compare_step t l r m mv w sg c)) =
     [''type'', ''indices'', ''metadata'', ''description'', ''operationCount'']"
  "field_names (number_step k (found_step t l r m c)) =
     [''type'', ''indices'', ''metadata'', ''description'', ''operationCount'']"
  "field_names (number_step k (eliminate_left_step t l r m mv)) =
     [''type'', ''indices'', ''metadata'', ''description'', ''operationCount'']"
  "field_names (number_step k (eliminate_right_step t l r m mv)) =
     [''type'', ''indices'', ''metadata'', ''description'', ''operationCount'']"
  "field_names (number_step k (exhausted_step t l r c)) =
     [''type'', ''indices'', ''metadata'', ''description'', ''operationCount'']"
  by (simp_all add: field_names_def number_step_def init_step_def empty_step_def range_step_def
      pointers_step_def compare_step_def found_step_def eliminate_left_step_def
      eliminate_right_step_def exhausted_step_def)

lemma core_loop_field_names:
  assumes v: "valid_input data target"
    and s: "\<forall>e \<in> set (steps s). field_names e =
              [''type'', ''indices'', ''metadata'', ''description'', ''operationCount'']"
  shows "\<exists>res s'. core_loop data target True 0 (len data - 1) s = Inr (res, s')
     \<and> (\<forall>e \<in> set (steps s'). field_names e =
              [''type'', ''indices'', ''metadata'', ''description'', ''operationCount''])"
proof -
  have fin: "\<forall>v \<in> set data. finite_number v" "finite_number target"
    using v by (simp_all add: valid_input_def)
  let ?P = "\<lambda>s::tracking. \<forall>e \<in> set (steps s). field_names e =
              [''type'', ''indices'', ''metadata'', ''description'', ''operationCount'']"
  show ?thesis
  proof (rule core_loop_rule[where I = "\<lambda>l r. ?P" and Q = "\<lambda>res. ?P", OF fin])
    show "?P s" using s by simp
  qed (simp_all add: steps_after_traced steps_iteration_state_traced)
qed

lemma execute_untraced_steps:
  assumes "execute data target False = Inr r"
  shows "steps r = []"
proof -
  have ok: "validate_input data target = Inr ()"
    using assms by (cases "validate_input data target") (simp_all add: execute_invalid)
  then obtain xs where d: "data = AList xs" by (cases data) auto
  with ok have v: "valid_input xs target" by (simp only: validate_input_ok)
  show ?thesis
  proof (cases "xs = []")
    case True
    with assms show ?thesis unfolding d execute_valid[OF v] by auto
  next
    case False
    obtain res s' where "core_loop xs target False 0 (len xs - 1) \<lparr>steps = [], comparisons = 0\<rparr>
        = Inr (res, s')" "steps s' = []"
      using core_loop_untraced[OF v, of "\<lparr>steps = [], comparisons = 0\<rparr>"] by auto
    with assms False show ?thesis
      unfolding d execute_valid[OF v] by (cases res) auto
  qed
qed

text \<open>
  Claim C9, as the specification states it, fails: the serialized result of a traced
  search of the empty sequence has no field \<^verbatim>\<open>trace\<close> or \<^verbatim>\<open>comparisonCount\<close>, and its
  first step has no field \<^verbatim>\<open>kind\<close> or \<^verbatim>\<open>sequenceNumber\<close>.
\<close>

theorem field_names_counterexample:
  "execute (AList []) (PInt 5) True
     = Inr \<lparr>steps = [number_step 0 (init_step (PInt 5) 0), number_step 1 empty_step],
            comparisons = 0, found = False, index = - 1\<rparr>
   \<and> ''trace'' \<notin> set (field_names (to_dict
         \<lparr>steps = [number_step 0 (init_step (PInt 5) 0), number_step 1 empty_step],
          comparisons = 0, found = False, index = - 1\<rparr>))
   \<and> ''comparisonCount'' \<notin> set (field_names (to_dict
         \<lparr>steps = [number_step 0 (init_step (PInt 5) 0), number_step 1 empty_step],
          comparisons = 0, found = False, index = - 1\<rparr>))
   \<and> ''kind'' \<notin> set (field_names (number_step 0 (init_step (PInt 5) 0)))
   \<and> ''sequenceNumber'' \<notin> set (field_names (number_step 0 (init_step (PInt 5) 0)))"
proof -
  have "valid_input [] (PInt 5)"
    by (simp add: valid_input_def finite_number_def float_overflows_def)
  then have "execute (AList []) (PInt 5) True
     = Inr \<lparr>steps = [number_step 0 (init_step (PInt 5) 0), number_step 1 empty_step],
            comparisons = 0, found = False, index = - 1\<rparr>"
    by (simp add: execute_valid len_def)
  moreover have "field_names (to_dict r) = [''found'', ''index'', ''steps'', ''comparisons'']" for r
    by (simp add: field_names_def to_dict_def)
  ultimately show ?thesis by simp
qed

text \<open>
  Claim C9, amended. The serialized result carries exactly the fields \<^verbatim>\<open>found\<close>,
  \<^verbatim>\<open>index\<close>, \<^verbatim>\<open>steps\<close> and \<^verbatim>\<open>comparisons\<close>, with the recorded steps under \<^verbatim>\<open>steps\<close>, and
  every recorded step carries exactly the fields \<^verbatim>\<open>type\<close>, \<^verbatim>\<open>indices\<close>, \<^verbatim>\<open>metadata\<close>,
  \<^verbatim>\<open>description\<close> and \<^verbatim>\<open>operationCount\<close>.
\<close>

theorem serialized_field_names:
  "field_names (to_dict r) = [''found'', ''index'', ''steps'', ''comparisons'']
   \<and> map_of (to_dict r) ''steps'' = Some (PyList (map Dict (steps r)))
   \<and> (execute data target tr = Inr r \<longrightarrow>
        (\<forall>e \<in> set (steps r). field_names e =
           [''type'', ''indices'', ''metadata'', ''description'', ''operationCount'']))"
proof (intro conjI impI)
  show "field_names (to_dict r) = [''found'', ''index'', ''steps'', ''comparisons'']"
    by (simp add: field_names_def to_dict_def)
  show "map_of (to_dict r) ''steps'' = Some (PyList (map Dict (steps r)))"
    by (simp add: to_dict_def)
next
  assume a: "execute data target tr = Inr r"
  then have ok: "validate_input data target = Inr ()"
    by (cases "validate_input data target") (simp_all add: execute_invalid)
  then obtain xs where d: "data = AList xs" by (cases data) auto
  with ok have v: "valid_input xs target" by (simp only: validate_input_ok)
  let ?names = "[''type'', ''indices'', ''metadata'', ''description'', ''operationCount'']"
  show "\<forall>e \<in> set (steps r). field_names e = ?names"
  proof (cases tr)
    case False
    with a have "execute data target False = Inr r" by simp
    from execute_untraced_steps[OF this] show ?thesis by simp
  next
    case True
    with a d have run: "execute (AList xs) target True = Inr r" by simp
    show ?thesis
    proof (cases "xs = []")
      case e: True
      from run[unfolded execute_valid[OF v]] e show ?thesis by (auto simp: len_def)
    next
      case ne: False
      let ?s = "add_step (init_step target (len xs)) \<lparr>steps = [], comparisons = 0\<rparr>"
      have "\<forall>e \<in> set (steps ?s). field_names e = ?names" by (simp add: len_def)
      from core_loop_field_names[OF v this] obtain res s' where
        "core_loop xs target True 0 (len xs - 1) ?s = Inr (res, s')"
        "\<forall>e \<in> set (steps s'). field_names e = ?names" by blast
      with run[unfolded execute_valid[OF v]] ne show ?thesis by (cases res) auto
    qed
  qed
qed

theorem serialized_field_names_witness:
  "execute (AList []) (PInt 5) True
     = Inr \<lparr>steps = [number_step 0 (init_step (PInt 5) 0), number_step 1 empty_step],
            comparisons = 0, found = False, index = - 1\<rparr>
   \<and> field_names (number_step 0 (init_step (PInt 5) 0))
     = [''type'', ''indices'', ''metadata'', ''description'', ''operationCount'']
   \<and> field_names (number_step 1 empty_step)
     = [''type'', ''indices'', ''metadata'', ''description'', ''operationCount'']"
proof -
  have "valid_input [] (PInt 5)"
    by (simp add: valid_input_def finite_number_def float_overflows_def)
  then have e: "execute (AList []) (PInt 5) True
     = Inr \<lparr>steps = [number_step 0 (init_step (PInt 5) 0), number_step 1 empty_step],
            comparisons = 0, found = False, index = - 1\<rparr>"
    by (simp add: execute_valid len_def)
  from serialized_field_names[of _ "AList []" "PInt 5" True] e
  have "\<forall>e \<in> set (steps \<lparr>steps = [number_step 0 (init_step (PInt 5) 0), number_step 1 empty_step],
            comparisons = 0, found = False, index = - 1\<rparr>).
         field_names e = [''type'', ''indices'', ''metadata'', ''description'', ''operationCount'']"
    by blast
  with e show ?thesis by simp
qed

end
